theory Spec2Isabelle
  imports Main "HOL-Library.AList"
begin

text \<open>
  A model of \<open>KnCliConfig\<close>, the part of the Knative extension that finds the \<open>kn\<close>
  command line tool or installs it: \<open>loadMetadata\<close>, \<open>detectOrDownload\<close>, \<open>getVersion\<close>
  and \<open>selectTool\<close>, each translated from its TypeScript source, followed by the
  properties proved of them. The resolver runs in a state that records the files, the
  tool table and every call it makes to the outside; \<open>loadMetadata\<close> runs on a heap of
  JavaScript objects.
\<close>

section \<open>Strings\<close>

text \<open>
  JavaScript strings are modelled as \<open>string\<close>: a list of code units below 256. The
  white space class \<open>\s\<close> of a JavaScript regular expression (which is also what
  \<open>String.prototype.trim\<close> strips) has seven members in that range.
\<close>

definition is_space :: "char \<Rightarrow> bool" where
  "is_space c = (c \<in> set [CHR 0x09, CHR 0x0A, CHR 0x0B, CHR 0x0C, CHR 0x0D, CHR 0x20, CHR 0xA0])"

definition is_digit :: "char \<Rightarrow> bool" where
  "is_digit c = (c \<in> set ''0123456789'')"

text \<open>The character class \<open>[0-9a-zA-Z-]\<close>.\<close>

definition is_ident :: "char \<Rightarrow> bool" where
  "is_ident c = (c \<in> set (''0123456789'' @ ''abcdefghijklmnopqrstuvwxyz''
                       @ ''ABCDEFGHIJKLMNOPQRSTUVWXYZ'' @ ''-''))"

definition trim :: "string \<Rightarrow> string" where
  "trim s = rev (dropWhile is_space (rev (dropWhile is_space s)))"

text \<open>\<open>s.split(c)\<close> for a one-character separator: the empty string gives one empty piece.\<close>

fun split_on :: "char \<Rightarrow> string \<Rightarrow> string list" where
  "split_on c [] = [[]]"
| "split_on c (x # xs) =
     (if x = c then [] # split_on c xs
      else (case split_on c xs of [] \<Rightarrow> [[x]] | l # ls \<Rightarrow> (x # l) # ls))"

definition endsWith :: "string \<Rightarrow> string \<Rightarrow> bool" where
  "endsWith s suf = (length suf \<le> length s \<and> drop (length s - length suf) s = suf)"

fun strip_prefix :: "string \<Rightarrow> string \<Rightarrow> string option" where
  "strip_prefix [] s = Some s"
| "strip_prefix (p # ps) [] = None"
| "strip_prefix (p # ps) (c # cs) = (if p = c then strip_prefix ps cs else None)"

section \<open>The version pattern of getVersion\<close>

text \<open>
  The regular expression of \<open>getVersion\<close> is
  \<^verbatim>\<open>Version:(\s+)v((([0-9]+)\.([0-9]+)\.([0-9]+)(?:-(I(?:\.I)*))?)(?:\+(I(?:\.I)*))?).*\<close>
  with \<open>I\<close> standing for \<open>[0-9a-zA-Z-]+\<close>. Every quantifier is greedy and what follows
  each of them either starts with a character outside the repeated class or cannot fail,
  so the greedy choice is the match: the functions below consume a longest run at each
  repetition. Capture group 2 is the text from the first digit up to the end of the
  optional build part; the trailing \<open>.*\<close> changes neither success nor that group.
\<close>

text \<open>\<open>[0-9]+\<close>: a longest non-empty run of digits and the rest.\<close>

definition digits1 :: "string \<Rightarrow> (string \<times> string) option" where
  "digits1 s = (let d = takeWhile is_digit s in
                if d = [] then None else Some (d, dropWhile is_digit s))"

text \<open>\<open>([0-9]+)\.([0-9]+)\.([0-9]+)\<close>\<close>

definition core_version :: "string \<Rightarrow> (string \<times> string) option" where
  "core_version s =
     (case digits1 s of None \<Rightarrow> None
      | Some (a, r1) \<Rightarrow>
        (case r1 of [] \<Rightarrow> None
         | c1 # r2 \<Rightarrow>
           if c1 \<noteq> CHR ''.'' then None else
           (case digits1 r2 of None \<Rightarrow> None
            | Some (b, r3) \<Rightarrow>
              (case r3 of [] \<Rightarrow> None
               | c2 # r4 \<Rightarrow>
                 if c2 \<noteq> CHR ''.'' then None else
                 (case digits1 r4 of None \<Rightarrow> None
                  | Some (c, r5) \<Rightarrow> Some (a @ ''.'' @ b @ ''.'' @ c, r5))))))"

text \<open>\<open>(?:\.[0-9a-zA-Z-]+)*\<close>: the dotted identifiers that follow, as far as they go.\<close>

function dotted_idents :: "string \<Rightarrow> string \<times> string" where
  "dotted_idents s =
     (case s of [] \<Rightarrow> ([], s)
      | c # r \<Rightarrow>
        if c = CHR ''.'' \<and> takeWhile is_ident r \<noteq> [] then
          (let (m, rest) = dotted_idents (dropWhile is_ident r)
           in (c # takeWhile is_ident r @ m, rest))
        else ([], s))"
  by pat_completeness auto
termination
  by (relation "measure length") (auto simp: length_dropWhile_le less_Suc_eq_le)

declare dotted_idents.simps [simp del]

text \<open>
  \<open>(?:-([0-9a-zA-Z-]+(?:\.[0-9a-zA-Z-]+)*))?\<close> for the tag character \<open>-\<close>, and the same with
  \<open>+\<close> for the build part: the matched text (empty when the group does not take part)
  and the rest.
\<close>

definition opt_tagged :: "char \<Rightarrow> string \<Rightarrow> string \<times> string" where
  "opt_tagged tag s =
     (case s of [] \<Rightarrow> ([], s)
      | c # r \<Rightarrow>
        if c = tag \<and> takeWhile is_ident r \<noteq> [] then
          (let (m, rest) = dotted_idents (dropWhile is_ident r)
           in (c # takeWhile is_ident r @ m, rest))
        else ([], s))"

text \<open>The pattern matched at the very start of \<open>s\<close>: capture group 2.\<close>

definition match_here :: "string \<Rightarrow> string option" where
  "match_here s =
     (case strip_prefix ''Version:'' s of None \<Rightarrow> None
      | Some r1 \<Rightarrow>
        if takeWhile is_space r1 = [] then None else
        (case dropWhile is_space r1 of [] \<Rightarrow> None
         | c # r2 \<Rightarrow>
           if c \<noteq> CHR ''v'' then None else
           (case core_version r2 of None \<Rightarrow> None
            | Some (core, r3) \<Rightarrow>
              (let (pre, r4) = opt_tagged CHR ''-'' r3;
                   (build, r5) = opt_tagged CHR ''+'' r4
               in Some (core @ pre @ build)))))"

text \<open>
  \<open>version.exec(value)\<close>: the pattern is not anchored, so the leftmost position where it
  matches wins. \<open>None\<close> is the \<open>null\<close> of a failed match, \<open>Some v\<close> carries group 2.
\<close>

fun version_exec :: "string \<Rightarrow> string option" where
  "version_exec [] = match_here []"
| "version_exec (c # cs) =
     (case match_here (c # cs) of Some v \<Rightarrow> Some v | None \<Rightarrow> version_exec cs)"

section \<open>The environment of the resolver\<close>

text \<open>
  What the code reaches through libraries is a parameter of the model: the home directory
  and the platform name (\<open>Platform\<close>), the \<open>PATH\<close> lookup (\<open>which\<close> of shelljs, \<open>None\<close> for
  its \<open>null\<close>), what a binary prints on standard output when run with the argument
  \<open>version\<close> (\<open>Cli.execute\<close>, \<open>None\<close> when there is no output), the SHA-256 digest
  (\<open>hasha\<close>), \<open>semver.satisfies\<close> on a version string, and what \<open>Archive.unzip\<close> does to
  the file system (\<open>None\<close> when it rejects). Files are byte strings. Creating the cache
  directory, removing a file and running a binary do not fail in the model; a download,
  the hash of a missing file, an extraction and \<open>chmodSync\<close> on a missing file do.
\<close>

type_synonym fs = "string \<rightharpoonup> string"

record env =
  home :: string
  os :: string
  which :: "string \<Rightarrow> string option"
  run_version :: "string \<Rightarrow> string option"
  sha256 :: "string \<Rightarrow> string"
  satisfies :: "string \<Rightarrow> string \<Rightarrow> bool"
  unzip :: "fs \<Rightarrow> string \<Rightarrow> string \<Rightarrow> string option \<Rightarrow> fs option"

text \<open>The fields of an entry of \<open>KnCliConfig.tools\<close> that the resolver reads or writes.\<close>

record tool =
  description :: string
  version :: string
  versionRange :: string
  versionRangeLabel :: string
  dlFileName :: string
  cmdFileName :: string
  filePrefix :: "string option"
  url :: string
  sha256sum :: string
  location :: "string option"

datatype event =
    Which string
  | ExistsSync string
  | Execute string
  | ShowInformationMessage string "string list"
  | EnsureDirSync string
  | DownloadFile string string
  | HashFromFile string
  | RemoveSync string
  | Unzip string string "string option"
  | ChmodSync string
  | OpenHelp

datatype error = TypeError | DownloadFailed | HashFailed | UnzipFailed | ChmodFailed

text \<open>
  The state the code works on: the tool table, the file system, what the user will answer
  to the coming prompts (\<open>None\<close> is a dismissed prompt, \<open>undefined\<close> in the code), what the
  coming downloads will deliver (\<open>None\<close> is a download that fails), and the calls made so
  far. A prompt with no answer left, or a download with no outcome left, never settles:
  the functions below return \<open>None\<close> there.
\<close>

record world =
  tools :: "string \<rightharpoonup> tool"
  files :: fs
  answers :: "string option list"
  downloads :: "string option list"
  trace :: "event list"

definition emit :: "event \<Rightarrow> world \<Rightarrow> world" where
  "emit e w = w\<lparr>trace := trace w @ [e]\<rparr>"

text \<open>
  \<open>path.resolve\<close> for an absolute first segment followed by plain relative names: the
  names joined by the platform's separator.
\<close>

definition sep :: "env \<Rightarrow> string" where
  "sep env = (if os env = ''win32'' then [CHR 0x5C] else ''/'')"

definition path_resolve :: "env \<Rightarrow> string \<Rightarrow> string list \<Rightarrow> string" where
  "path_resolve env base names = foldl (\<lambda>p s. p @ sep env @ s) base names"

text \<open>\<open>semver.satisfies(version, range)\<close>: an undefined version satisfies no range.\<close>

definition semver_satisfies :: "env \<Rightarrow> string option \<Rightarrow> string \<Rightarrow> bool" where
  "semver_satisfies env v rng = (case v of None \<Rightarrow> False | Some s \<Rightarrow> satisfies env s rng)"

section \<open>getVersion and selectTool\<close>

text \<open>The version lines of an output: the lines that match, each mapped to its group 2.\<close>

definition toolVersion :: "string \<Rightarrow> string list" where
  "toolVersion out = List.map_filter version_exec (split_on (CHR 0x0A) (trim out))"

definition getVersion :: "env \<Rightarrow> string \<Rightarrow> world \<Rightarrow> string option \<times> world" where
  "getVersion env loc w =
     (let w1 = emit (ExistsSync loc) w in
      case files w1 loc of
        None \<Rightarrow> (None, w1)
      | Some binary \<Rightarrow>
        (let w2 = emit (Execute ([CHR 0x22] @ loc @ [CHR 0x22] @ '' version'')) w1 in
         case run_version env binary of
           None \<Rightarrow> (None, w2)
         | Some out \<Rightarrow>
           if out = [] then (None, w2)
           else (case toolVersion out of [] \<Rightarrow> (None, w2) | v # _ \<Rightarrow> (Some v, w2))))"

text \<open>A \<open>null\<close> or empty location is falsy: the guard skips it before \<open>getVersion\<close>.\<close>

fun selectTool :: "env \<Rightarrow> string option list \<Rightarrow> string \<Rightarrow> world \<Rightarrow> string option \<times> world" where
  "selectTool env [] rng w = (None, w)"
| "selectTool env (l # ls) rng w =
     (case l of
        None \<Rightarrow> selectTool env ls rng w
      | Some loc \<Rightarrow>
        if loc = [] then selectTool env ls rng w
        else (case getVersion env loc w of
                (v, w') \<Rightarrow>
                  if semver_satisfies env v rng then (Some loc, w')
                  else selectTool env ls rng w'))"

section \<open>detectOrDownload\<close>

text \<open>
  One pass through the body of the do-while loop of the install flow: download, hash,
  compare; on a mismatch remove the file and ask. The result is the value of \<open>action\<close>
  at the end of the pass.
\<close>

definition download_attempt ::
  "env \<Rightarrow> tool \<Rightarrow> string \<Rightarrow> world \<Rightarrow> ((error + string option) \<times> world) option" where
  "download_attempt env t dl w =
     (case downloads w of
        [] \<Rightarrow> None
      | d # ds \<Rightarrow>
        (let w1 = emit (DownloadFile (url t) dl) (w\<lparr>downloads := ds\<rparr>) in
         case d of
           None \<Rightarrow> Some (Inl DownloadFailed, w1)
         | Some bytes \<Rightarrow>
           (let w2 = emit (HashFromFile dl) (w1\<lparr>files := (files w1)(dl \<mapsto> bytes)\<rparr>) in
            case files w2 dl of
              None \<Rightarrow> Some (Inl HashFailed, w2)
            | Some c \<Rightarrow>
              if sha256 env c \<noteq> sha256sum t then
                (let w3 = emit (RemoveSync dl) (w2\<lparr>files := (files w2)(dl := None)\<rparr>) in
                 case answers w3 of
                   [] \<Rightarrow> None
                 | a # as \<Rightarrow>
                   Some (Inr a,
                         emit (ShowInformationMessage
                                 (''Checksum for downloaded '' @ description t @ '' v''
                                    @ version t @ '' is not correct.'')
                                 [''Download again'', ''Cancel''])
                              (w3\<lparr>answers := as\<rparr>)))
              else Some (Inr None, w2))))"

text \<open>\<open>do { ... } while (action === 'Download again')\<close>\<close>

function download_loop ::
  "env \<Rightarrow> tool \<Rightarrow> string \<Rightarrow> world \<Rightarrow> ((error + string option) \<times> world) option" where
  "download_loop env t dl w =
     (case download_attempt env t dl w of
        None \<Rightarrow> None
      | Some (Inl e, w') \<Rightarrow> Some (Inl e, w')
      | Some (Inr action, w') \<Rightarrow>
        if action = Some ''Download again'' then download_loop env t dl w'
        else Some (Inr action, w'))"
  by pat_completeness auto
termination
  by (relation "measure (\<lambda>(env, t, dl, w). length (downloads w))")
     (auto simp: download_attempt_def emit_def Let_def
           split: list.splits option.splits if_splits)

declare download_loop.simps [simp del]

definition unzip_to ::
  "env \<Rightarrow> string \<Rightarrow> string \<Rightarrow> string option \<Rightarrow> world \<Rightarrow> (error + unit) \<times> world" where
  "unzip_to env zipFile extractTo prefix w =
     (let w1 = emit (Unzip zipFile extractTo prefix) w in
      case unzip env (files w1) zipFile extractTo prefix of
        None \<Rightarrow> (Inl UnzipFailed, w1)
      | Some fs' \<Rightarrow> (Inr (), w1\<lparr>files := fs'\<rparr>))"

text \<open>
  The body of \<open>if (action !== 'Cancel')\<close>: extract by extension, remove the download,
  make the binary executable (\<open>fs.chmodSync\<close> throws when the file is not there), and
  take the cache path as the tool's location.
\<close>

definition install ::
  "env \<Rightarrow> tool \<Rightarrow> string \<Rightarrow> string \<Rightarrow> world \<Rightarrow> (error + string option) \<times> world" where
  "install env t dl cache w =
     (case (if endsWith dl ''.zip'' \<or> endsWith dl ''.tar.gz'' then
              unzip_to env dl (path_resolve env (home env) [''.vs-kn'']) (filePrefix t) w
            else if endsWith dl ''.gz'' then unzip_to env dl cache (filePrefix t) w
            else (Inr (), w)) of
        (Inl e, w1) \<Rightarrow> (Inl e, w1)
      | (Inr u, w1) \<Rightarrow>
        (let w2 = emit (RemoveSync dl) (w1\<lparr>files := (files w1)(dl := None)\<rparr>) in
         if os env \<noteq> ''win32'' then
           (let w3 = emit (ChmodSync cache) w2 in
            if files w3 cache = None then (Inl ChmodFailed, w3) else (Inr (Some cache), w3))
         else (Inr (Some cache), w2)))"

text \<open>\<open>if (toolLocation) KnCliConfig.tools[cmd].location = toolLocation\<close>, then return.\<close>

definition record_location ::
  "string \<Rightarrow> string option \<Rightarrow> world \<Rightarrow> ((error + string option) \<times> world) option" where
  "record_location cmd toolLocation w =
     (case toolLocation of
        None \<Rightarrow> Some (Inr None, w)
      | Some p \<Rightarrow>
        if p = [] then Some (Inr (Some p), w)
        else Some (Inr (Some p),
                   w\<lparr>tools := (tools w)(cmd := map_option (\<lambda>t. t\<lparr>location := Some p\<rparr>) (tools w cmd))\<rparr>))"

text \<open>The branch \<open>toolLocation === undefined\<close> after \<open>selectTool\<close>: ask, then install.\<close>

definition request_download ::
  "env \<Rightarrow> string \<Rightarrow> tool \<Rightarrow> string \<Rightarrow> world \<Rightarrow> ((error + string option) \<times> world) option" where
  "request_download env cmd t cache w =
     (let dl = path_resolve env (home env) [''.vs-kn'', dlFileName t];
          installRequest = ''Download and install v'' @ version t
      in case answers w of
           [] \<Rightarrow> None
         | response # rest \<Rightarrow>
           (let w1 = emit (ShowInformationMessage
                            (''Cannot find '' @ description t @ '' '' @ versionRangeLabel t @ ''.'')
                            [installRequest, ''Help'', ''Cancel''])
                          (w\<lparr>answers := rest\<rparr>);
                w2 = emit (EnsureDirSync (path_resolve env (home env) [''.vs-kn''])) w1
            in if response = Some installRequest then
                 (case download_loop env t dl w2 of
                    None \<Rightarrow> None
                  | Some (Inl e, w3) \<Rightarrow> Some (Inl e, w3)
                  | Some (Inr action, w3) \<Rightarrow>
                    if action \<noteq> Some ''Cancel'' then
                      (case install env t dl cache w3 of
                         (Inl e, w4) \<Rightarrow> Some (Inl e, w4)
                       | (Inr toolLocation, w4) \<Rightarrow> record_location cmd toolLocation w4)
                    else record_location cmd None w3)
               else if response = Some ''Help'' then record_location cmd None (emit OpenHelp w2)
               else record_location cmd None w2))"

text \<open>
  The result is \<open>None\<close> when the call never settles, \<open>Inl e\<close> when the promise rejects and
  \<open>Inr l\<close> when it resolves with \<open>l\<close> (\<open>None\<close> for \<open>undefined\<close>), together with the state
  then. Reading a field of an entry that is not in the table is a \<open>TypeError\<close>.
\<close>

definition detectOrDownload ::
  "env \<Rightarrow> string \<Rightarrow> world \<Rightarrow> ((error + string option) \<times> world) option" where
  "detectOrDownload env cmd w =
     (case tools w cmd of
        None \<Rightarrow> Some (Inl TypeError, w)
      | Some t \<Rightarrow>
        (case location t of
           Some p \<Rightarrow> Some (Inr (Some p), w)
         | None \<Rightarrow>
           (let toolCacheLocation = path_resolve env (home env) [''.vs-kn'', cmdFileName t];
                w1 = emit (Which cmd) w;
                toolLocations = [which env cmd, Some toolCacheLocation]
            in case selectTool env toolLocations (versionRange t) w1 of
                 (Some p, w2) \<Rightarrow> record_location cmd (Some p) w2
               | (None, w2) \<Rightarrow> request_download env cmd t toolCacheLocation w2)))"

section \<open>loadMetadata\<close>

text \<open>
  \<open>loadMetadata\<close> works on JavaScript objects, which are shared and mutable: the model
  has an explicit heap. A value is a primitive or the address of a cell; a cell is an
  object or an array, with its own enumerable properties in their order (an array's
  properties are its indices). Numbers are only ever tested for zero here; integers
  stand for them. \<open>undefined\<close> is \<open>None\<close> where a value is optional. Properties that come
  from a prototype (\<open>length\<close>, \<open>constructor\<close>, ...) are outside the model: a platform
  name is not one of them. The property list of a cell is in enumeration order, and a new
  key goes to its end, as JavaScript has it for keys that are not array indices.
\<close>

type_synonym addr = nat

datatype kind = Object | Array

datatype val = VNull | VBool bool | VNum int | VStr string | VRef addr

type_synonym cell = "kind \<times> (string \<times> val) list"

type_synonym heap = "cell list"

datatype json = JNull | JBool bool | JNum int | JStr string | JNode kind "(string \<times> json) list"

text \<open>The decimal numeral of an index, for the index properties of a string.\<close>

fun show_nat :: "nat \<Rightarrow> string" where
  "show_nat n =
     (if n < 10 then [char_of (48 + n)] else show_nat (n div 10) @ [char_of (48 + n mod 10)])"

declare show_nat.simps [simp del]

definition index_props :: "(string \<Rightarrow> 'a) \<Rightarrow> string \<Rightarrow> (string \<times> 'a) list" where
  "index_props mk s = map (\<lambda>i. (show_nat i, mk [s ! i])) [0..<length s]"

text \<open>
  The own enumerable properties of a value, in enumeration order. A key that a cell
  lists twice counts once, at its first place.
\<close>

definition own_props :: "heap \<Rightarrow> val \<Rightarrow> (string \<times> val) list" where
  "own_props h v =
     (case v of
        VRef a \<Rightarrow> if a < length h then AList.clearjunk (snd (h ! a)) else []
      | VStr s \<Rightarrow> index_props VStr s
      | _ \<Rightarrow> [])"

text \<open>
  \<open>JSON.stringify\<close>, producing the tree that the text denotes. The fuel is the number of
  nested objects still allowed; a chain of distinct cells is no longer than the heap, so
  with the heap's length as fuel the result is \<open>None\<close> only for a circular structure (or
  a dangling address), where the code throws a \<open>TypeError\<close> (\<open>stringify_fuel\<close> below).
\<close>

fun stringify :: "nat \<Rightarrow> heap \<Rightarrow> val \<Rightarrow> json option" where
  "stringify n h VNull = Some JNull"
| "stringify n h (VBool b) = Some (JBool b)"
| "stringify n h (VNum i) = Some (JNum i)"
| "stringify n h (VStr s) = Some (JStr s)"
| "stringify 0 h (VRef a) = None"
| "stringify (Suc n) h (VRef a) =
     (if a < length h then
        map_option (JNode (fst (h ! a)))
          (those (map (\<lambda>(k, v). map_option (Pair k) (stringify n h v))
                      (AList.clearjunk (snd (h ! a)))))
      else None)"

definition json_stringify :: "heap \<Rightarrow> val \<Rightarrow> json option" where
  "json_stringify h v = stringify (length h) h v"

text \<open>
  \<open>JSON.parse\<close> of such a text: every object of the tree becomes a new cell at the end
  of the heap, the properties first.
\<close>

fun json_parse :: "json \<Rightarrow> heap \<Rightarrow> val \<times> heap"
  and parse_props :: "(string \<times> json) list \<Rightarrow> heap \<Rightarrow> (string \<times> val) list \<times> heap" where
  "json_parse JNull h = (VNull, h)"
| "json_parse (JBool b) h = (VBool b, h)"
| "json_parse (JNum i) h = (VNum i, h)"
| "json_parse (JStr s) h = (VStr s, h)"
| "json_parse (JNode k js) h =
     (case parse_props js h of (ps, h') \<Rightarrow> (VRef (length h'), h' @ [(k, ps)]))"
| "parse_props [] h = ([], h)"
| "parse_props ((key, j) # js) h =
     (case json_parse j h of
        (v, h1) \<Rightarrow> (case parse_props js h1 of (ps, h2) \<Rightarrow> ((key, v) # ps, h2)))"

definition truthy :: "val option \<Rightarrow> bool" where
  "truthy v =
     (case v of
        None \<Rightarrow> False
      | Some VNull \<Rightarrow> False
      | Some (VBool b) \<Rightarrow> b
      | Some (VNum i) \<Rightarrow> i \<noteq> 0
      | Some (VStr s) \<Rightarrow> s \<noteq> []
      | Some (VRef a) \<Rightarrow> True)"

text \<open>
  \<open>base[key]\<close>, \<open>Object.assign(target, source)\<close> and \<open>delete base[key]\<close>. Reading or
  deleting a property of \<open>null\<close> or \<open>undefined\<close> is a \<open>TypeError\<close>.
\<close>

definition get :: "heap \<Rightarrow> val option \<Rightarrow> string \<Rightarrow> error + val option" where
  "get h base key =
     (case base of
        None \<Rightarrow> Inl TypeError
      | Some VNull \<Rightarrow> Inl TypeError
      | Some v \<Rightarrow> Inr (map_of (own_props h v) key))"

definition object_assign :: "heap \<Rightarrow> val option \<Rightarrow> val option \<Rightarrow> error + heap" where
  "object_assign h target source =
     (case target of
        None \<Rightarrow> Inl TypeError
      | Some VNull \<Rightarrow> Inl TypeError
      | Some (VRef a) \<Rightarrow>
          if a < length h then
            Inr (h[a := (fst (h ! a),
                         foldl (\<lambda>ps (k, v). AList.update k v ps) (snd (h ! a))
                               (case source of None \<Rightarrow> [] | Some s \<Rightarrow> own_props h s))])
          else Inr h
      | Some _ \<Rightarrow> Inr h)"

definition delete_prop :: "heap \<Rightarrow> val option \<Rightarrow> string \<Rightarrow> error + heap" where
  "delete_prop h base key =
     (case base of
        None \<Rightarrow> Inl TypeError
      | Some VNull \<Rightarrow> Inl TypeError
      | Some (VRef a) \<Rightarrow>
          if a < length h then Inr (h[a := (fst (h ! a), AList.delete key (snd (h ! a)))])
          else Inr h
      | Some _ \<Rightarrow> Inr h)"

text \<open>
  The body of the loop for one key. The code evaluates \<open>reqs[object].platform[platform]\<close>
  for the test and again for the call of \<open>Object.assign\<close>, with no write in between: it
  is read once here. \<open>reqs[object]\<close> is read again for the \<open>delete\<close>, after the write.
\<close>

definition visit :: "val \<Rightarrow> string \<Rightarrow> string \<Rightarrow> heap \<Rightarrow> error option \<times> heap" where
  "visit reqs platform object h =
     (case get h (Some reqs) object of
        Inl e \<Rightarrow> (Some e, h)
      | Inr entry \<Rightarrow>
        (case get h entry ''platform'' of
           Inl e \<Rightarrow> (Some e, h)
         | Inr table \<Rightarrow>
           if truthy table then
             (case get h table platform of
                Inl e \<Rightarrow> (Some e, h)
              | Inr overrides \<Rightarrow>
                if truthy overrides then
                  (case object_assign h entry overrides of
                     Inl e \<Rightarrow> (Some e, h)
                   | Inr h1 \<Rightarrow>
                     (case get h1 (Some reqs) object of
                        Inl e \<Rightarrow> (Some e, h1)
                      | Inr entry1 \<Rightarrow>
                        (case delete_prop h1 entry1 ''platform'' of
                           Inl e \<Rightarrow> (Some e, h1)
                         | Inr h2 \<Rightarrow> (None, h2))))
                else
                  (case delete_prop h (Some reqs) object of
                     Inl e \<Rightarrow> (Some e, h)
                   | Inr h1 \<Rightarrow> (None, h1)))
           else (None, h)))"

text \<open>
  \<open>for (const object in requirements)\<close>, over the keys in enumeration order. The loop
  never writes to \<open>requirements\<close>, so its keys are those at the start.
\<close>

fun for_in :: "val \<Rightarrow> string \<Rightarrow> string list \<Rightarrow> heap \<Rightarrow> error option \<times> heap" where
  "for_in reqs platform [] h = (None, h)"
| "for_in reqs platform (object # rest) h =
     (case visit reqs platform object h of
        (Some e, h') \<Rightarrow> (Some e, h')
      | (None, h') \<Rightarrow> for_in reqs platform rest h')"

text \<open>The result is the returned value or the error thrown, and the heap then.\<close>

definition loadMetadata :: "heap \<Rightarrow> val \<Rightarrow> string \<Rightarrow> (error + val) \<times> heap" where
  "loadMetadata h requirements platform =
     (case json_stringify h requirements of
        None \<Rightarrow> (Inl TypeError, h)
      | Some text \<Rightarrow>
        (case json_parse text h of
           (reqs, h1) \<Rightarrow>
             (case for_in reqs platform (map fst (own_props h1 requirements)) h1 of
                (Some e, h2) \<Rightarrow> (Inl e, h2)
              | (None, h2) \<Rightarrow> (Inr reqs, h2))))"

section \<open>Notions used by the properties\<close>

text \<open>
  A candidate is acceptable for a range in a state when it is a non-empty location whose
  detected version, as \<open>getVersion\<close> finds it there, satisfies the range.
\<close>

definition acceptable :: "env \<Rightarrow> string \<Rightarrow> world \<Rightarrow> string option \<Rightarrow> bool" where
  "acceptable env rng w l =
     (case l of None \<Rightarrow> False
      | Some loc \<Rightarrow> loc \<noteq> [] \<and> semver_satisfies env (fst (getVersion env loc w)) rng)"

text \<open>The extraction calls among the events.\<close>

fun is_unzip :: "event \<Rightarrow> bool" where
  "is_unzip (Unzip z d p) = True"
| "is_unzip e = False"

section \<open>A sequence of calls, and concrete scenarios\<close>

text \<open>The state after a sequence of calls of \<open>detectOrDownload\<close>, whatever each returned.\<close>

fun calls :: "env \<Rightarrow> string list \<Rightarrow> world \<Rightarrow> world option" where
  "calls env [] w = Some w"
| "calls env (c # cs) w =
     (case detectOrDownload env c w of None \<Rightarrow> None | Some (r, w') \<Rightarrow> calls env cs w')"

text \<open>
  A Linux machine with \<open>kn\<close> on the \<open>PATH\<close>. The bytes of a binary are what it prints for
  \<open>version\<close>; the digest is a tagged copy of the bytes; ranges are exact versions; an
  archive unpacks to the one file \<open>kn\<close> under the target directory.
\<close>

definition linux_env :: env where
  "linux_env = \<lparr>home = ''/home/u'', os = ''linux'',
     which = (\<lambda>c. if c = ''kn'' then Some ''/usr/bin/kn'' else None),
     run_version = (\<lambda>binary. Some binary),
     sha256 = (\<lambda>bytes. ''sha256:'' @ bytes),
     satisfies = (\<lambda>v r. v = r),
     unzip = (\<lambda>fs zipFile extractTo prefix.
                case fs zipFile of None \<Rightarrow> None
                | Some bytes \<Rightarrow> Some (fs(extractTo @ ''/kn'' \<mapsto> bytes)))\<rparr>"

definition kn_tool :: tool where
  "kn_tool = \<lparr>description = ''Knative CLI tool'', version = ''0.13.1'',
     versionRange = ''0.13.1'', versionRangeLabel = ''v0.13.1'',
     dlFileName = ''kn.tar.gz'', cmdFileName = ''kn'', filePrefix = None,
     url = ''https://example.org/kn.tar.gz'',
     sha256sum = ''sha256:Version:      v0.13.1'', location = None\<rparr>"

definition world_of :: "fs \<Rightarrow> tool \<Rightarrow> string option list \<Rightarrow> string option list \<Rightarrow> world" where
  "world_of fsys t ans dls =
     \<lparr>tools = [''kn'' \<mapsto> t], files = fsys, answers = ans, downloads = dls, trace = []\<rparr>"

definition path_world :: world where
  "path_world = world_of [''/usr/bin/kn'' \<mapsto> ''Version:      v0.13.1''] kn_tool [] []"

definition path_world_resolved :: world where
  "path_world_resolved =
     path_world\<lparr>tools := [''kn'' \<mapsto> kn_tool\<lparr>location := Some ''/usr/bin/kn''\<rparr>],
                trace := [Which ''kn'', ExistsSync ''/usr/bin/kn'',
                          Execute ([CHR 0x22] @ ''/usr/bin/kn'' @ [CHR 0x22] @ '' version'')]\<rparr>"

text \<open>The same machine with no \<open>kn\<close> anywhere, and a user who declines.\<close>

definition cancel_world :: world where
  "cancel_world = world_of Map.empty kn_tool [Some ''Cancel'', Some ''Help''] []"

section \<open>The shape of a detected version\<close>

text \<open>
  What the version pattern describes, stated without reference to the matcher: three
  non-empty runs of digits separated by dots, then optionally \<open>-\<close> and dotted
  identifiers, then optionally \<open>+\<close> and dotted identifiers; and a line that holds
  \<open>Version:\<close>, white space, \<open>v\<close> and then the version.
\<close>

definition digit_run :: "string \<Rightarrow> bool" where
  "digit_run s = (s \<noteq> [] \<and> (\<forall>c\<in>set s. is_digit c))"

definition ident_run :: "string \<Rightarrow> bool" where
  "ident_run s = (s \<noteq> [] \<and> (\<forall>c\<in>set s. is_ident c))"

inductive dotted :: "string \<Rightarrow> bool" where
  one: "ident_run i \<Longrightarrow> dotted i"
| more: "ident_run i \<Longrightarrow> dotted r \<Longrightarrow> dotted (i @ ''.'' @ r)"

definition semver_shaped :: "string \<Rightarrow> bool" where
  "semver_shaped v =
     (\<exists>a b c pre build.
        v = a @ ''.'' @ b @ ''.'' @ c @ pre @ build \<and>
        digit_run a \<and> digit_run b \<and> digit_run c \<and>
        (pre = [] \<or> (\<exists>i. pre = ''-'' @ i \<and> dotted i)) \<and>
        (build = [] \<or> (\<exists>i. build = ''+'' @ i \<and> dotted i)))"

definition version_line :: "string \<Rightarrow> string \<Rightarrow> bool" where
  "version_line v line =
     (\<exists>before ws rest.
        line = before @ ''Version:'' @ ws @ ''v'' @ v @ rest \<and>
        ws \<noteq> [] \<and> (\<forall>c\<in>set ws. is_space c))"

section \<open>Download names and further scenarios\<close>

text \<open>The extensions the install flow extracts.\<close>

definition supported :: "string \<Rightarrow> bool" where
  "supported dl = (endsWith dl ''.zip'' \<or> endsWith dl ''.tar.gz'' \<or> endsWith dl ''.gz'')"


text \<open>A Linux machine with no \<open>kn\<close> on the \<open>PATH\<close>.\<close>

definition bare_linux_env :: env where
  "bare_linux_env = linux_env\<lparr>which := (\<lambda>c. None)\<rparr>"

text \<open>A raw binary as the download, and an old \<open>kn\<close> already in the cache directory.\<close>

definition kn_raw_tool :: tool where
  "kn_raw_tool = kn_tool\<lparr>dlFileName := ''kn-linux-amd64'',
                           url := ''https://example.org/kn-linux-amd64''\<rparr>"

definition stale_world :: world where
  "stale_world = world_of [''/home/u/.vs-kn/kn'' \<mapsto> ''Version:      v0.12.0''] kn_raw_tool
                   [Some ''Download and install v0.13.1''] [Some ''Version:      v0.13.1'']"

text \<open>An archive with the expected digest whose binary prints no version line.\<close>

definition kn_unversioned_tool :: tool where
  "kn_unversioned_tool = kn_tool\<lparr>sha256sum := ''sha256:kn 0.13.1''\<rparr>"

definition install_world :: world where
  "install_world = world_of Map.empty kn_unversioned_tool
                     [Some ''Download and install v0.13.1''] [Some ''kn 0.13.1'']"

text \<open>
  No \<open>kn\<close> anywhere; the user accepts the download, the first download arrives corrupt,
  the user asks for another, and that one has the expected digest.
\<close>

definition retry_world :: world where
  "retry_world = world_of Map.empty kn_tool
                   [Some ''Download and install v0.13.1'', Some ''Download again'']
                   [Some ''corrupt'', Some ''Version:      v0.13.1'']"

text \<open>
  A Windows machine without \<open>kn\<close>, a download that arrives corrupt, and a user who accepts
  the download and then dismisses the checksum prompt.
\<close>

definition win_home :: string where
  "win_home = ''C:'' @ [CHR 0x5C] @ ''Users'' @ [CHR 0x5C] @ ''u''"

definition win32_env :: env where
  "win32_env = linux_env\<lparr>home := win_home, os := ''win32'', which := (\<lambda>c. None)\<rparr>"

definition kn_exe_tool :: tool where
  "kn_exe_tool = kn_tool\<lparr>dlFileName := ''kn-windows-amd64.exe'', cmdFileName := ''kn.exe'',
                           url := ''https://example.org/kn-windows-amd64.exe''\<rparr>"

definition dismiss_world :: world where
  "dismiss_world = world_of Map.empty kn_exe_tool
                     [Some ''Download and install v0.13.1'', None] [Some ''corrupt'']"

text \<open>The same machine and tool, with a download that has the expected digest.\<close>

definition win_raw_world :: world where
  "win_raw_world = world_of Map.empty kn_exe_tool
                     [Some ''Download and install v0.13.1''] [Some ''Version:      v0.13.1'']"

section \<open>Notions for loadMetadata\<close>

text \<open>
  Addresses at or above a mark, and heaps whose cells above the mark hold no address below
  it: what the call allocates refers only to what the call allocated.
\<close>

definition fresh :: "nat \<Rightarrow> val option \<Rightarrow> bool" where
  "fresh n0 v = (case v of Some (VRef b) \<Rightarrow> n0 \<le> b | _ \<Rightarrow> True)"

definition closed_above :: "nat \<Rightarrow> heap \<Rightarrow> bool" where
  "closed_above n0 h =
     (\<forall>a. n0 \<le> a \<and> a < length h \<longrightarrow> (\<forall>p\<in>set (snd (h ! a)). fresh n0 (Some (snd p))))"

text \<open>
  The same notions on trees: truthiness, own properties, and what the loop makes of one
  entry (\<open>None\<close> when the entry is removed), stated on the tree of the input alone.
\<close>

definition truthy_json :: "json option \<Rightarrow> bool" where
  "truthy_json j =
     (case j of
        None \<Rightarrow> False
      | Some JNull \<Rightarrow> False
      | Some (JBool b) \<Rightarrow> b
      | Some (JNum i) \<Rightarrow> i \<noteq> 0
      | Some (JStr s) \<Rightarrow> s \<noteq> []
      | Some (JNode k js) \<Rightarrow> True)"

definition props_json :: "json \<Rightarrow> (string \<times> json) list" where
  "props_json j =
     (case j of
        JNode k js \<Rightarrow> AList.clearjunk js
      | JStr s \<Rightarrow> index_props JStr s
      | _ \<Rightarrow> [])"

definition merged_entry :: "string \<Rightarrow> json \<Rightarrow> json option" where
  "merged_entry platform entry =
     (let table = map_of (props_json entry) ''platform'' in
      if truthy_json table then
        (let overrides = (case table of None \<Rightarrow> None | Some t \<Rightarrow> map_of (props_json t) platform) in
         if truthy_json overrides then
           Some (case entry of
                   JNode k ps \<Rightarrow>
                     JNode k (AList.delete ''platform''
                                (foldl (\<lambda>ps (key, v). AList.update key v ps) ps
                                       (case overrides of None \<Rightarrow> [] | Some ov \<Rightarrow> props_json ov)))
                 | _ \<Rightarrow> entry)
         else None)
      else Some entry)"

text \<open>
  What \<open>loadMetadata\<close> is to return, as a tree: every entry replaced by its merged form,
  the removed ones left out.
\<close>

definition loadMetadata_spec :: "string \<Rightarrow> json \<Rightarrow> json" where
  "loadMetadata_spec platform j =
     (case j of
        JNode k ps \<Rightarrow>
          JNode k (List.map_filter (\<lambda>(key, e). map_option (Pair key) (merged_entry platform e)) ps)
      | _ \<Rightarrow> j)"

text \<open>No object of the tree lists a key twice.\<close>

fun wf_json :: "json \<Rightarrow> bool" and wf_props :: "(string \<times> json) list \<Rightarrow> bool" where
  "wf_json (JNode k js) = wf_props js"
| "wf_json j = True"
| "wf_props [] = True"
| "wf_props ((key, j) # js) = (key \<notin> fst ` set js \<and> wf_json j \<and> wf_props js)"

text \<open>
  \<open>reads_in lo hi h v j\<close>: in the heap \<open>h\<close> the value \<open>v\<close> holds the tree \<open>j\<close>, and every
  cell that is read for it has its address in \<open>[lo, hi)\<close>, the properties of a cell
  below the cell itself.
\<close>

fun reads_in :: "nat \<Rightarrow> nat \<Rightarrow> heap \<Rightarrow> val \<Rightarrow> json \<Rightarrow> bool"
  and props_in :: "nat \<Rightarrow> nat \<Rightarrow> heap \<Rightarrow> (string \<times> val) list \<Rightarrow> (string \<times> json) list \<Rightarrow> bool" where
  "reads_in lo hi h v JNull = (v = VNull)"
| "reads_in lo hi h v (JBool b) = (v = VBool b)"
| "reads_in lo hi h v (JNum i) = (v = VNum i)"
| "reads_in lo hi h v (JStr s) = (v = VStr s)"
| "reads_in lo hi h v (JNode k js) =
     (case v of
        VRef a \<Rightarrow> lo \<le> a \<and> a < hi \<and> a < length h \<and> fst (h ! a) = k \<and>
                  props_in lo a h (AList.clearjunk (snd (h ! a))) js
      | _ \<Rightarrow> False)"
| "props_in lo hi h ps [] = (ps = [])"
| "props_in lo hi h ps ((key, j) # js) =
     (case ps of
        [] \<Rightarrow> False
      | p # ps' \<Rightarrow> fst p = key \<and> reads_in lo hi h (snd p) j \<and> props_in lo hi h ps' js)"

text \<open>The same for a list of properties that lie one after the other in the heap.\<close>

fun segs :: "nat \<Rightarrow> nat \<Rightarrow> heap \<Rightarrow> (string \<times> val) list \<Rightarrow> (string \<times> json) list \<Rightarrow> bool" where
  "segs lo hi h ps [] = (ps = [] \<and> lo \<le> hi)"
| "segs lo hi h ps ((key, j) # js) =
     (case ps of
        [] \<Rightarrow> False
      | p # ps' \<Rightarrow> fst p = key \<and>
          (\<exists>mid. lo \<le> mid \<and> reads_in lo mid h (snd p) j \<and> segs mid hi h ps' js))"

text \<open>Two heaps with the same cells at the addresses in \<open>[lo, hi)\<close>.\<close>

definition agree :: "nat \<Rightarrow> nat \<Rightarrow> heap \<Rightarrow> heap \<Rightarrow> bool" where
  "agree lo hi h h' = (\<forall>a. lo \<le> a \<and> a < hi \<and> a < length h \<longrightarrow> a < length h' \<and> h' ! a = h ! a)"

text \<open>The platform table of an entry and the overrides it has for a platform.\<close>

definition platform_table :: "json \<Rightarrow> json option" where
  "platform_table entry = map_of (props_json entry) ''platform''"

definition overrides_for :: "string \<Rightarrow> json \<Rightarrow> json option" where
  "overrides_for platform entry =
     (case platform_table entry of None \<Rightarrow> None | Some t \<Rightarrow> map_of (props_json t) platform)"

text \<open>
  A configuration with three tools: one with overrides for two platforms, one with
  overrides for \<open>win32\<close> only, one with no platform table; and what \<open>loadMetadata\<close> is
  to make of it on \<open>linux\<close>.
\<close>

definition config_entries :: "(string \<times> json) list" where
  "config_entries =
     [(''kn'', JNode Object
         [(''description'', JStr ''Knative CLI tool''), (''version'', JStr ''0.13.1''),
          (''cmdFileName'', JStr ''kn''),
          (''platform'', JNode Object
             [(''win32'', JNode Object [(''dlFileName'', JStr ''kn.zip''), (''cmdFileName'', JStr ''kn.exe'')]),
              (''linux'', JNode Object [(''dlFileName'', JStr ''kn.tar.gz'')])])]),
      (''oc'', JNode Object
         [(''description'', JStr ''OpenShift client''),
          (''platform'', JNode Object [(''win32'', JNode Object [(''dlFileName'', JStr ''oc.zip'')])])]),
      (''helm'', JNode Object [(''description'', JStr ''Helm'')])]"

definition config_json :: json where
  "config_json = JNode Object config_entries"

definition config_heap :: heap where
  "config_heap = snd (json_parse config_json [])"

definition config_root :: val where
  "config_root = fst (json_parse config_json [])"

definition config_linux :: json where
  "config_linux = JNode Object
     [(''kn'', JNode Object
         [(''description'', JStr ''Knative CLI tool''), (''version'', JStr ''0.13.1''),
          (''cmdFileName'', JStr ''kn''), (''dlFileName'', JStr ''kn.tar.gz'')]),
      (''helm'', JNode Object [(''description'', JStr ''Helm'')])]"

section \<open>Properties of getVersion and selectTool\<close>

lemma getVersion_files: "files (snd (getVersion env loc w)) = files w"
  by (simp add: getVersion_def emit_def Let_def split: option.splits list.splits)

lemma getVersion_tools: "tools (snd (getVersion env loc w)) = tools w"
  by (simp add: getVersion_def emit_def Let_def split: option.splits list.splits)

lemma getVersion_files_only:
  "files w = files w' \<Longrightarrow> fst (getVersion env loc w) = fst (getVersion env loc w')"
  by (simp add: getVersion_def emit_def Let_def split: option.splits list.splits)

lemma acceptable_files_only:
  "files w = files w' \<Longrightarrow> acceptable env rng w l = acceptable env rng w' l"
  using getVersion_files_only[of w w'] by (auto simp: acceptable_def split: option.splits)

lemma getVersion_frame:
  "getVersion env loc w = (v, w1) \<Longrightarrow>
     tools w1 = tools w \<and> files w1 = files w \<and> answers w1 = answers w \<and> downloads w1 = downloads w"
  by (auto simp: getVersion_def emit_def Let_def split: option.splits list.splits if_splits)

lemma getVersion_trace:
  "\<exists>tr. trace (snd (getVersion env loc w)) = trace w @ ExistsSync loc # tr \<and> (\<forall>e\<in>set tr. \<not> is_unzip e)"
  by (simp add: getVersion_def emit_def Let_def split: option.splits list.splits)

lemma selectTool_frame:
  "selectTool env ls rng w = (r, w') \<Longrightarrow>
     tools w' = tools w \<and> files w' = files w \<and> answers w' = answers w \<and> downloads w' = downloads w"
proof (induction ls arbitrary: w)
  case Nil
  then show ?case by auto
next
  case (Cons l ls)
  show ?case
  proof (cases "l = None \<or> l = Some []")
    case True
    then show ?thesis using Cons.prems Cons.IH[of w] by auto
  next
    case False
    then obtain loc where l: "l = Some loc" "loc \<noteq> []" by (cases l) auto
    obtain v w1 where g: "getVersion env loc w = (v, w1)" by (cases "getVersion env loc w")
    note f = getVersion_frame[OF g]
    show ?thesis
    proof (cases "semver_satisfies env v rng")
      case True
      then show ?thesis using Cons.prems l g f by simp
    next
      case False
      then have "selectTool env ls rng w1 = (r, w')" using Cons.prems l g by simp
      then show ?thesis using Cons.IH[of w1] f by simp
    qed
  qed
qed

lemma selectTool_trace:
  "\<exists>tr. trace (snd (selectTool env ls rng w)) = trace w @ tr \<and> (\<forall>e\<in>set tr. \<not> is_unzip e)"
proof (induction ls arbitrary: w)
  case Nil
  then show ?case by simp
next
  case (Cons l ls)
  show ?case
  proof (cases "l = None \<or> l = Some []")
    case True
    then show ?thesis using Cons.IH[of w] by auto
  next
    case False
    then obtain loc where l: "l = Some loc" "loc \<noteq> []" by (cases l) auto
    obtain v w1 where g: "getVersion env loc w = (v, w1)" by (cases "getVersion env loc w")
    obtain t1 where t1: "trace w1 = trace w @ ExistsSync loc # t1" "\<forall>e\<in>set t1. \<not> is_unzip e"
      using getVersion_trace[of env loc w] g by auto
    obtain t2 where t2: "trace (snd (selectTool env ls rng w1)) = trace w1 @ t2" "\<forall>e\<in>set t2. \<not> is_unzip e"
      using Cons.IH[of w1] by auto
    show ?thesis
    proof (cases "semver_satisfies env v rng")
      case True
      then show ?thesis using l g t1 by simp
    next
      case False
      then show ?thesis using l g t1 t2 by auto
    qed
  qed
qed

text \<open>
  C1. For every list of candidates and every range, \<open>selectTool\<close> returns the first
  candidate, in the order of the list, whose detected version satisfies the range, and
  \<open>undefined\<close> when there is none.
\<close>

theorem selectTool_first_satisfying:
  "fst (selectTool env ls rng w) =
     (case List.find (acceptable env rng w) ls of None \<Rightarrow> None | Some l \<Rightarrow> l)"
proof (induction ls arbitrary: w)
  case Nil
  then show ?case by simp
next
  case (Cons l ls)
  show ?case
  proof (cases l)
    case None
    then show ?thesis using Cons.IH[of w] by (simp add: acceptable_def)
  next
    case (Some loc)
    obtain v w' where g: "getVersion env loc w = (v, w')"
      by (cases "getVersion env loc w")
    have f: "files w' = files w"
      using getVersion_files[of env loc w] g by simp
    have e: "List.find (acceptable env rng w') ls = List.find (acceptable env rng w) ls"
      using acceptable_files_only[OF f] by (metis (no_types, lifting) find_cong)
    have a: "acceptable env rng w (Some loc) = (loc \<noteq> [] \<and> semver_satisfies env v rng)"
      using g by (simp add: acceptable_def)
    show ?thesis
      unfolding Some using g e a Cons.IH[of w'] Cons.IH[of w] by simp
  qed
qed

section \<open>What a call of detectOrDownload changes\<close>

lemma download_attempt_frame:
  "download_attempt env t dl w = Some (r, w') \<Longrightarrow>
     tools w' = tools w \<and> (\<exists>tr. trace w' = trace w @ tr \<and> (\<forall>e\<in>set tr. \<not> is_unzip e))"
  by (auto simp: download_attempt_def emit_def Let_def split: list.splits option.splits if_splits)

lemma download_loop_frame:
  "download_loop env t dl w = Some (r, w') \<Longrightarrow>
     tools w' = tools w \<and> (\<exists>tr. trace w' = trace w @ tr \<and> (\<forall>e\<in>set tr. \<not> is_unzip e))"
proof (induction env t dl w rule: download_loop.induct)
  case (1 env t dl w)
  from "1.prems" obtain r1 w1 where a: "download_attempt env t dl w = Some (r1, w1)"
    by (subst (asm) download_loop.simps) (auto split: option.splits)
  note f1 = download_attempt_frame[OF a]
  show ?case
  proof (cases "r1 = Inr (Some ''Download again'')")
    case True
    then have "download_loop env t dl w1 = Some (r, w')"
      using "1.prems" a by (subst (asm) download_loop.simps) simp
    then have "tools w' = tools w1 \<and> (\<exists>tr. trace w' = trace w1 @ tr \<and> (\<forall>e\<in>set tr. \<not> is_unzip e))"
      using "1.IH"[OF a _ ] True by simp
    then show ?thesis using f1 by auto
  next
    case False
    then have "r = r1 \<and> w' = w1"
      using "1.prems" a by (subst (asm) download_loop.simps) (auto split: sum.splits if_splits)
    then show ?thesis using f1 by simp
  qed
qed


lemma unzip_to_frame:
  "unzip_to env z d p w = (r, w') \<Longrightarrow> tools w' = tools w \<and> (\<exists>tr. trace w' = trace w @ tr)"
  by (auto simp: unzip_to_def emit_def Let_def split: option.splits)

lemma install_frame:
  "install env t dl cache w = (r, w') \<Longrightarrow> tools w' = tools w \<and> (\<exists>tr. trace w' = trace w @ tr)"
  by (auto simp: install_def emit_def Let_def split: prod.splits sum.splits if_splits dest!: unzip_to_frame)

lemma install_result:
  "install env t dl cache w = (Inr l, w') \<Longrightarrow> l = Some cache"
  by (auto simp: install_def emit_def Let_def split: prod.splits sum.splits if_splits)

lemma record_location_frame:
  "record_location cmd l w = Some (r, w') \<Longrightarrow>
     r = Inr l \<and> trace w' = trace w \<and>
     (tools w' = tools w \<or>
      (\<exists>p. l = Some p \<and> p \<noteq> [] \<and>
           tools w' = (tools w)(cmd := map_option (\<lambda>t. t\<lparr>location := Some p\<rparr>) (tools w cmd))))"
  by (auto simp: record_location_def split: option.splits if_splits)

lemma record_location_None: "record_location cmd None w = Some (Inr None, w)"
  by (simp add: record_location_def)

lemma request_download_frame:
  assumes "request_download env cmd t cache w = Some (r, w')"
  shows "(\<exists>tr. trace w' = trace w @ tr) \<and>
         (tools w' = tools w \<or>
          (\<exists>p. p \<noteq> [] \<and> r = Inr (Some p) \<and>
               tools w' = (tools w)(cmd := map_option (\<lambda>t. t\<lparr>location := Some p\<rparr>) (tools w cmd))))"
proof -
  from assms obtain a rest where ans: "answers w = a # rest"
    by (cases "answers w") (auto simp: request_download_def Let_def)
  define dl where "dl = path_resolve env (home env) [''.vs-kn'', dlFileName t]"
  define w1 where "w1 = emit (ShowInformationMessage
                            (''Cannot find '' @ description t @ '' '' @ versionRangeLabel t @ ''.'')
                            [''Download and install v'' @ version t, ''Help'', ''Cancel''])
                          (w\<lparr>answers := rest\<rparr>)"
  define w2 where "w2 = emit (EnsureDirSync (path_resolve env (home env) [''.vs-kn''])) w1"
  have w2: "tools w2 = tools w" "\<exists>tr. trace w2 = trace w @ tr"
    by (simp_all add: w2_def w1_def emit_def)
  show ?thesis
  proof (cases "a = Some (''Download and install v'' @ version t)")
    case True
    then obtain r3 w3 where d: "download_loop env t dl w2 = Some (r3, w3)"
      using assms ans by (auto simp: request_download_def Let_def dl_def w1_def w2_def split: option.splits)
    note f3 = download_loop_frame[OF d]
    show ?thesis
    proof (cases r3)
      case (Inl e)
      then have "r = Inl e \<and> w' = w3"
        using assms ans True d by (auto simp: request_download_def Let_def dl_def w1_def w2_def)
      then show ?thesis using f3 w2 by auto
    next
      case (Inr action)
      show ?thesis
      proof (cases "action = Some ''Cancel''")
        case True
        then have "r = Inr None \<and> w' = w3"
          using assms ans \<open>a = Some _\<close> d Inr
          by (auto simp: request_download_def Let_def dl_def w1_def w2_def record_location_def)
        then show ?thesis using f3 w2 by auto
      next
        case False
        obtain r4 w4 where i: "install env t dl cache w3 = (r4, w4)"
          by (cases "install env t dl cache w3")
        note f4 = install_frame[OF i]
        show ?thesis
        proof (cases r4)
          case (Inl e)
          then have "r = Inl e \<and> w' = w4"
            using assms ans \<open>a = Some _\<close> d Inr False i
            by (auto simp: request_download_def Let_def dl_def w1_def w2_def)
          then show ?thesis using f4 f3 w2 by auto
        next
          case (Inr l)
          then have "record_location cmd l w4 = Some (r, w')"
            using assms ans \<open>a = Some _\<close> d \<open>r3 = Inr action\<close> False i
            by (auto simp: request_download_def Let_def dl_def w1_def w2_def)
          from record_location_frame[OF this] show ?thesis using f4 f3 w2 by auto
        qed
      qed
    qed
  next
    case False
    then have "(r = Inr None \<and> w' = w2) \<or> (r = Inr None \<and> w' = emit OpenHelp w2)"
      using assms ans
      by (auto simp: request_download_def Let_def dl_def w1_def w2_def record_location_def split: if_splits)
    then show ?thesis using w2 by (auto simp: emit_def)
  qed
qed

lemma detectOrDownload_frame:
  assumes "detectOrDownload env cmd w = Some (r, w')"
  shows "tools w' = tools w \<or>
         (\<exists>t p. tools w cmd = Some t \<and> location t = None \<and> p \<noteq> [] \<and> r = Inr (Some p) \<and>
                tools w' = (tools w)(cmd \<mapsto> t\<lparr>location := Some p\<rparr>))"
proof (cases "tools w cmd")
  case None
  then show ?thesis using assms by (simp add: detectOrDownload_def)
next
  case (Some t)
  show ?thesis
  proof (cases "location t")
    case (Some p)
    then show ?thesis using assms \<open>tools w cmd = Some t\<close> by (simp add: detectOrDownload_def)
  next
    case None
    define cache where "cache = path_resolve env (home env) [''.vs-kn'', cmdFileName t]"
    obtain sel w2 where s: "selectTool env [which env cmd, Some cache] (versionRange t) (emit (Which cmd) w) = (sel, w2)"
      by (cases "selectTool env [which env cmd, Some cache] (versionRange t) (emit (Which cmd) w)")
    have w2: "tools w2 = tools w" using selectTool_frame[OF s] by (simp add: emit_def)
    show ?thesis
    proof (cases sel)
      case None
      then have "request_download env cmd t cache w2 = Some (r, w')"
        using assms \<open>tools w cmd = Some t\<close> \<open>location t = None\<close> s
        by (simp add: detectOrDownload_def Let_def cache_def)
      from request_download_frame[OF this] show ?thesis
        using w2 \<open>tools w cmd = Some t\<close> \<open>location t = None\<close> by auto
    next
      case (Some p)
      then have "record_location cmd (Some p) w2 = Some (r, w')"
        using assms \<open>tools w cmd = Some t\<close> \<open>location t = None\<close> s
        by (simp add: detectOrDownload_def Let_def cache_def)
      from record_location_frame[OF this] show ?thesis
        using w2 \<open>tools w cmd = Some t\<close> \<open>location t = None\<close> by auto
    qed
  qed
qed

section \<open>Resolved locations\<close>

lemma selectTool_nonempty: "selectTool env ls rng w = (Some p, w') \<Longrightarrow> p \<noteq> []"
proof (induction ls arbitrary: w)
  case Nil
  then show ?case by simp
next
  case (Cons l ls)
  show ?case
  proof (cases "l = None \<or> l = Some []")
    case True
    then show ?thesis using Cons.prems Cons.IH[of w] by auto
  next
    case False
    then obtain loc where l: "l = Some loc" "loc \<noteq> []" by (cases l) auto
    obtain v w1 where g: "getVersion env loc w = (v, w1)" by (cases "getVersion env loc w")
    show ?thesis using Cons.prems Cons.IH[of w1] l g by (auto split: if_splits)
  qed
qed

lemma sep_nonempty: "sep env \<noteq> []"
  by (simp add: sep_def)

lemma path_resolve_nonempty: "path_resolve env base (s # names) \<noteq> []"
proof -
  have "\<And>b. b \<noteq> [] \<Longrightarrow> foldl (\<lambda>p s. p @ sep env @ s) b names \<noteq> []"
    by (induction names) (auto simp: sep_nonempty)
  then show ?thesis by (simp add: path_resolve_def sep_nonempty)
qed

lemma record_location_sets:
  "tools w cmd = Some t \<Longrightarrow> p \<noteq> [] \<Longrightarrow>
   record_location cmd (Some p) w = Some (Inr (Some p), w\<lparr>tools := (tools w)(cmd \<mapsto> t\<lparr>location := Some p\<rparr>)\<rparr>)"
  by (simp add: record_location_def)

lemma detectOrDownload_cached_branch:
  "tools w cmd = Some t \<Longrightarrow> location t = Some p \<Longrightarrow> detectOrDownload env cmd w = Some (Inr (Some p), w)"
  by (simp add: detectOrDownload_def)

lemma request_download_resolved:
  assumes "request_download env cmd t cache w = Some (Inr (Some p), w')" "tools w cmd = Some t" "cache \<noteq> []"
  shows "\<exists>t'. tools w' cmd = Some t' \<and> location t' = Some p"
proof -
  from assms obtain a rest where ans: "answers w = a # rest"
    by (cases "answers w") (auto simp: request_download_def Let_def)
  define dl where "dl = path_resolve env (home env) [''.vs-kn'', dlFileName t]"
  define w2 where "w2 = emit (EnsureDirSync (path_resolve env (home env) [''.vs-kn'']))
                         (emit (ShowInformationMessage
                            (''Cannot find '' @ description t @ '' '' @ versionRangeLabel t @ ''.'')
                            [''Download and install v'' @ version t, ''Help'', ''Cancel''])
                          (w\<lparr>answers := rest\<rparr>))"
  have w2: "tools w2 = tools w" by (simp add: w2_def emit_def)
  have a: "a = Some (''Download and install v'' @ version t)"
    using assms(1) ans by (auto simp: request_download_def Let_def record_location_def split: if_splits)
  then obtain r3 w3 where d: "download_loop env t dl w2 = Some (r3, w3)"
    using assms(1) ans by (auto simp: request_download_def Let_def dl_def w2_def split: option.splits)
  have w3: "tools w3 = tools w" using download_loop_frame[OF d] w2 by simp
  obtain action where r3: "r3 = Inr action" "action \<noteq> Some ''Cancel''"
    using assms(1) ans a d
    by (cases r3) (auto simp: request_download_def Let_def dl_def w2_def record_location_def split: if_splits)
  obtain r4 w4 where i: "install env t dl cache w3 = (r4, w4)"
    by (cases "install env t dl cache w3")
  have w4: "tools w4 = tools w" using install_frame[OF i] w3 by simp
  obtain l where r4: "r4 = Inr l" and rl: "record_location cmd l w4 = Some (Inr (Some p), w')"
    using assms(1) ans a d r3 i
    by (cases r4) (auto simp: request_download_def Let_def dl_def w2_def)
  have "l = Some cache" using install_result i r4 by blast
  then show ?thesis using rl record_location_sets[of w4 cmd t cache] w4 assms(2,3) by auto
qed

lemma detectOrDownload_resolved:
  assumes "detectOrDownload env cmd w = Some (Inr (Some p), w')"
  shows "\<exists>t'. tools w' cmd = Some t' \<and> location t' = Some p"
proof (cases "tools w cmd")
  case None
  then show ?thesis using assms by (simp add: detectOrDownload_def)
next
  case (Some t)
  show ?thesis
  proof (cases "location t")
    case (Some q)
    then show ?thesis using assms \<open>tools w cmd = Some t\<close> by (auto simp: detectOrDownload_def)
  next
    case None
    define cache where "cache = path_resolve env (home env) [''.vs-kn'', cmdFileName t]"
    have cache: "cache \<noteq> []" unfolding cache_def by (rule path_resolve_nonempty)
    obtain sel w2 where s: "selectTool env [which env cmd, Some cache] (versionRange t) (emit (Which cmd) w) = (sel, w2)"
      by (cases "selectTool env [which env cmd, Some cache] (versionRange t) (emit (Which cmd) w)")
    have w2: "tools w2 = tools w" using selectTool_frame[OF s] by (simp add: emit_def)
    show ?thesis
    proof (cases sel)
      case None
      then have "request_download env cmd t cache w2 = Some (Inr (Some p), w')"
        using assms \<open>tools w cmd = Some t\<close> \<open>location t = None\<close> s
        by (simp add: detectOrDownload_def Let_def cache_def)
      from request_download_resolved[OF this _ cache] show ?thesis
        using w2 \<open>tools w cmd = Some t\<close> by simp
    next
      case (Some q)
      then have q: "q \<noteq> []" using selectTool_nonempty s by blast
      have "record_location cmd (Some q) w2 = Some (Inr (Some p), w')"
        using assms \<open>tools w cmd = Some t\<close> \<open>location t = None\<close> s Some
        by (simp add: detectOrDownload_def Let_def cache_def)
      then show ?thesis using record_location_sets[of w2 cmd t q] w2 \<open>tools w cmd = Some t\<close> q by auto
    qed
  qed
qed

text \<open>
  C5. Resolving a tool whose \<open>location\<close> is already set returns that path at once and
  leaves the state as it is: no event is added (no \<open>which\<close>, no file lookup, no run of
  the binary, no prompt) and no answer is consumed. Hence a call that resolved a tool to
  a path gives the same path again, with no further effect.
\<close>

theorem detectOrDownload_idempotent:
  "(tools w cmd = Some t \<and> location t = Some p \<longrightarrow>
      detectOrDownload env cmd w = Some (Inr (Some p), w)) \<and>
   (detectOrDownload env cmd w = Some (Inr (Some p), w') \<longrightarrow>
      detectOrDownload env cmd w' = Some (Inr (Some p), w'))"
  using detectOrDownload_cached_branch detectOrDownload_resolved by blast

lemmas eval_defs = dotted_idents.simps detectOrDownload_def request_download_def record_location_def install_def
  unzip_to_def download_loop.simps download_attempt_def getVersion_def toolVersion_def
  path_resolve_def sep_def emit_def semver_satisfies_def endsWith_def trim_def
  match_here_def core_version_def digits1_def opt_tagged_def is_space_def is_digit_def is_ident_def
  linux_env_def kn_tool_def world_of_def Let_def


lemma path_world_run:
  "detectOrDownload linux_env ''kn'' path_world = Some (Inr (Some ''/usr/bin/kn''), path_world_resolved)"
  by (simp add: eval_defs path_world_def path_world_resolved_def List.map_filter_def)

theorem detectOrDownload_idempotent_witness:
  "tools path_world_resolved ''kn'' = Some (kn_tool\<lparr>location := Some ''/usr/bin/kn''\<rparr>) \<and>
   location (kn_tool\<lparr>location := Some ''/usr/bin/kn''\<rparr>) = Some ''/usr/bin/kn'' \<and>
   detectOrDownload linux_env ''kn'' path_world = Some (Inr (Some ''/usr/bin/kn''), path_world_resolved) \<and>
   detectOrDownload linux_env ''kn'' path_world_resolved = Some (Inr (Some ''/usr/bin/kn''), path_world_resolved)"
  using detectOrDownload_idempotent[of path_world_resolved "''kn''" "kn_tool\<lparr>location := Some ''/usr/bin/kn''\<rparr>"
          "''/usr/bin/kn''" linux_env path_world_resolved] path_world_run
  by (simp add: path_world_resolved_def path_world_def world_of_def)

section \<open>The cache of resolved locations\<close>

lemma detectOrDownload_keeps_set:
  assumes "detectOrDownload env cmd w = Some (r, w')" "tools w k = Some t0" "location t0 = Some p0"
  shows "tools w' k = Some t0"
  using detectOrDownload_frame[OF assms(1)] assms(2,3) by (cases "k = cmd") auto

lemma calls_keep_set:
  "calls env cs w = Some w'' \<Longrightarrow> tools w k = Some t0 \<Longrightarrow> location t0 = Some p0 \<Longrightarrow> tools w'' k = Some t0"
proof (induction cs arbitrary: w)
  case Nil
  then show ?case by simp
next
  case (Cons c cs)
  from Cons.prems(1) obtain r w1 where d: "detectOrDownload env c w = Some (r, w1)" and c: "calls env cs w1 = Some w''"
    by (auto split: option.splits)
  show ?case using Cons.IH[OF c detectOrDownload_keeps_set[OF d Cons.prems(2,3)] Cons.prems(3)] .
qed

text \<open>
  C7. A call of \<open>detectOrDownload\<close> writes \<open>tools[cmd].location\<close> only when it was
  undefined before, and writes nothing else of the table; so through any sequence of
  calls an entry whose location is set stays exactly as it is.
\<close>

theorem location_written_once:
  "(detectOrDownload env cmd w = Some (r, w') \<longrightarrow>
      tools w' = tools w \<or>
      (\<exists>t p. tools w cmd = Some t \<and> location t = None \<and>
             tools w' = (tools w)(cmd \<mapsto> t\<lparr>location := Some p\<rparr>))) \<and>
   (calls env cs w = Some w'' \<and> tools w k = Some t0 \<and> location t0 = Some p0 \<longrightarrow>
      tools w'' k = Some t0)"
proof (intro conjI impI)
  assume "detectOrDownload env cmd w = Some (r, w')"
  from detectOrDownload_frame[OF this]
  show "tools w' = tools w \<or>
      (\<exists>t p. tools w cmd = Some t \<and> location t = None \<and>
             tools w' = (tools w)(cmd \<mapsto> t\<lparr>location := Some p\<rparr>))"
    by blast
next
  assume "calls env cs w = Some w'' \<and> tools w k = Some t0 \<and> location t0 = Some p0"
  then show "tools w'' k = Some t0" using calls_keep_set by blast
qed

theorem location_written_once_witness:
  "detectOrDownload linux_env ''kn'' path_world = Some (Inr (Some ''/usr/bin/kn''), path_world_resolved) \<and>
   tools path_world ''kn'' = Some kn_tool \<and> location kn_tool = None \<and>
   tools path_world_resolved = (tools path_world)(''kn'' \<mapsto> kn_tool\<lparr>location := Some ''/usr/bin/kn''\<rparr>) \<and>
   calls linux_env [''kn'', ''kn'', ''kn''] path_world_resolved = Some path_world_resolved \<and>
   tools path_world_resolved ''kn'' = Some (kn_tool\<lparr>location := Some ''/usr/bin/kn''\<rparr>)"
proof -
  have c: "detectOrDownload linux_env ''kn'' path_world_resolved = Some (Inr (Some ''/usr/bin/kn''), path_world_resolved)"
    by (simp add: detectOrDownload_def path_world_resolved_def path_world_def world_of_def)
  have cs: "calls linux_env [''kn'', ''kn'', ''kn''] path_world_resolved = Some path_world_resolved"
    by (simp add: c)
  have t: "tools path_world_resolved ''kn'' = Some (kn_tool\<lparr>location := Some ''/usr/bin/kn''\<rparr>)"
    by (simp add: path_world_resolved_def)
  have l: "location (kn_tool\<lparr>location := Some ''/usr/bin/kn''\<rparr>) = Some ''/usr/bin/kn''"
    by simp
  have k: "tools path_world ''kn'' = Some kn_tool" "location kn_tool = None"
    by (simp_all add: path_world_def world_of_def kn_tool_def)
  have u: "tools path_world_resolved =
             (tools path_world)(''kn'' \<mapsto> kn_tool\<lparr>location := Some ''/usr/bin/kn''\<rparr>)"
    by (simp add: path_world_resolved_def path_world_def world_of_def)
  have "tools path_world_resolved ''kn'' = Some (kn_tool\<lparr>location := Some ''/usr/bin/kn''\<rparr>)"
    using location_written_once[of linux_env "''kn''" path_world "Inr (Some ''/usr/bin/kn'')"
            path_world_resolved "[''kn'', ''kn'', ''kn'']" path_world_resolved "''kn''"
            "kn_tool\<lparr>location := Some ''/usr/bin/kn''\<rparr>" "''/usr/bin/kn''"] cs t l
    by blast
  with path_world_run k u cs show ?thesis by blast
qed

lemma detectOrDownload_uncached_trace:
  assumes "tools w cmd = Some t" "location t = None" "detectOrDownload env cmd w = Some (r, w')"
  shows "\<exists>tr. trace w' = trace w @ Which cmd # tr"
proof -
  define cache where "cache = path_resolve env (home env) [''.vs-kn'', cmdFileName t]"
  obtain sel w2 where s: "selectTool env [which env cmd, Some cache] (versionRange t) (emit (Which cmd) w) = (sel, w2)"
    by (cases "selectTool env [which env cmd, Some cache] (versionRange t) (emit (Which cmd) w)")
  obtain t2 where t2: "trace w2 = trace w @ Which cmd # t2"
    using selectTool_trace[of env "[which env cmd, Some cache]" "versionRange t" "emit (Which cmd) w"] s
    by (auto simp: emit_def)
  show ?thesis
  proof (cases sel)
    case None
    then have "request_download env cmd t cache w2 = Some (r, w')"
      using assms s by (simp add: detectOrDownload_def Let_def cache_def)
    from request_download_frame[OF this] show ?thesis using t2 by auto
  next
    case (Some p)
    then have "record_location cmd (Some p) w2 = Some (r, w')"
      using assms s by (simp add: detectOrDownload_def Let_def cache_def)
    from record_location_frame[OF this] show ?thesis using t2 by auto
  qed
qed

text \<open>
  C8. When no candidate satisfies the range and the user answers the first prompt with
  Cancel or Help, or dismisses it, \<open>detectOrDownload\<close> resolves with \<open>undefined\<close> and
  leaves the tool table (so the unset location) and the files as they were; a later
  call for the same tool starts the detection again, with the \<open>PATH\<close> lookup.
\<close>

theorem failed_resolution_not_cached:
  assumes "tools w cmd = Some t" and "location t = None"
    and "fst (selectTool env [which env cmd, Some (path_resolve env (home env) [''.vs-kn'', cmdFileName t])]
               (versionRange t) (emit (Which cmd) w)) = None"
    and "answers w = a # rest" and "a \<in> {Some ''Cancel'', Some ''Help'', None}"
  shows "\<exists>w'. detectOrDownload env cmd w = Some (Inr None, w') \<and>
              tools w' = tools w \<and> files w' = files w \<and> answers w' = rest \<and>
              (\<forall>r2 w2. detectOrDownload env cmd w' = Some (r2, w2) \<longrightarrow>
                       (\<exists>tr. trace w2 = trace w' @ Which cmd # tr))"
proof -
  define cache where "cache = path_resolve env (home env) [''.vs-kn'', cmdFileName t]"
  obtain sel w2 where s: "selectTool env [which env cmd, Some cache] (versionRange t) (emit (Which cmd) w) = (sel, w2)"
    by (cases "selectTool env [which env cmd, Some cache] (versionRange t) (emit (Which cmd) w)")
  have sel: "sel = None" using assms(3) s by (simp add: cache_def)
  have f2: "tools w2 = tools w" "files w2 = files w" "answers w2 = a # rest"
    using selectTool_frame[OF s] assms(4) by (simp_all add: emit_def)
  define w3 where "w3 = emit (EnsureDirSync (path_resolve env (home env) [''.vs-kn'']))
                         (emit (ShowInformationMessage
                            (''Cannot find '' @ description t @ '' '' @ versionRangeLabel t @ ''.'')
                            [''Download and install v'' @ version t, ''Help'', ''Cancel''])
                          (w2\<lparr>answers := rest\<rparr>))"
  define w' where "w' = (if a = Some ''Help'' then emit OpenHelp w3 else w3)"
  have r: "request_download env cmd t cache w2 = Some (Inr None, w')"
    using assms(5) f2(3)
    by (auto simp: request_download_def Let_def record_location_def w3_def w'_def)
  have d: "detectOrDownload env cmd w = Some (Inr None, w')"
    using assms(1,2) s sel r by (simp add: detectOrDownload_def Let_def cache_def)
  have f: "tools w' = tools w" "files w' = files w" "answers w' = rest"
    using f2 by (simp_all add: w'_def w3_def emit_def)
  have "\<forall>r2 w2. detectOrDownload env cmd w' = Some (r2, w2) \<longrightarrow>
                       (\<exists>tr. trace w2 = trace w' @ Which cmd # tr)"
    using detectOrDownload_uncached_trace[of w' cmd t env] assms(1,2) f(1) by auto
  then show ?thesis using d f by blast
qed

theorem failed_resolution_not_cached_witness:
  "tools cancel_world ''kn'' = Some kn_tool \<and> location kn_tool = None \<and>
   fst (selectTool linux_env [which linux_env ''kn'',
          Some (path_resolve linux_env (home linux_env) [''.vs-kn'', cmdFileName kn_tool])]
         (versionRange kn_tool) (emit (Which ''kn'') cancel_world)) = None \<and>
   answers cancel_world = Some ''Cancel'' # [Some ''Help''] \<and>
   (\<exists>w'. detectOrDownload linux_env ''kn'' cancel_world = Some (Inr None, w') \<and>
         tools w' = tools cancel_world \<and> answers w' = [Some ''Help''])"
proof -
  have 1: "tools cancel_world ''kn'' = Some kn_tool"
    by (simp add: cancel_world_def world_of_def)
  have 2: "location kn_tool = None"
    by (simp add: kn_tool_def)
  have 3: "fst (selectTool linux_env [which linux_env ''kn'',
          Some (path_resolve linux_env (home linux_env) [''.vs-kn'', cmdFileName kn_tool])]
         (versionRange kn_tool) (emit (Which ''kn'') cancel_world)) = None"
    by (simp add: eval_defs cancel_world_def)
  have 4: "answers cancel_world = Some ''Cancel'' # [Some ''Help'']"
    by (simp add: cancel_world_def world_of_def)
  have 5: "Some ''Cancel'' \<in> {Some ''Cancel'', Some ''Help'', None}"
    by simp
  from failed_resolution_not_cached[OF 1 2 3 4 5] 1 2 3 4 show ?thesis by blast
qed

section \<open>Null and absent candidates\<close>



lemma getVersion_absent:
  "files w loc = None \<Longrightarrow> getVersion env loc w = (None, emit (ExistsSync loc) w)"
  by (simp add: getVersion_def emit_def)

lemma selectTool_all_absent:
  "\<forall>l\<in>set ls. l = None \<or> (\<exists>loc. l = Some loc \<and> files w loc = None) \<Longrightarrow>
     fst (selectTool env ls rng w) = None \<and>
     (\<forall>e\<in>set (drop (length (trace w)) (trace (snd (selectTool env ls rng w)))). \<exists>loc. e = ExistsSync loc)"
proof (induction ls arbitrary: w)
  case Nil
  then show ?case by simp
next
  case (Cons l ls)
  show ?case
  proof (cases "l = None \<or> l = Some []")
    case True
    then show ?thesis using Cons.prems Cons.IH[of w] by auto
  next
    case False
    then obtain loc where l: "l = Some loc" "loc \<noteq> []" by (cases l) auto
    then have a: "files w loc = None" using Cons.prems by auto
    define w1 where "w1 = emit (ExistsSync loc) w"
    have g: "getVersion env loc w = (None, w1)" using getVersion_absent[OF a] by (simp add: w1_def)
    have "\<forall>l\<in>set ls. l = None \<or> (\<exists>loc. l = Some loc \<and> files w1 loc = None)"
      using Cons.prems by (simp add: w1_def emit_def)
    note ih = Cons.IH[OF this]
    have s: "selectTool env (l # ls) rng w = selectTool env ls rng w1"
      using l g by (simp add: semver_satisfies_def)
    obtain tr where tr: "trace (snd (selectTool env ls rng w1)) = trace w1 @ tr"
      using selectTool_trace[of env ls rng w1] by auto
    have "drop (length (trace w)) (trace (snd (selectTool env ls rng w1))) = ExistsSync loc # drop (length (trace w1)) (trace (snd (selectTool env ls rng w1)))"
      using tr by (simp add: w1_def emit_def)
    then show ?thesis using ih s by auto
  qed
qed

text \<open>
  C10. \<open>selectTool\<close> returns for every candidate list, also with \<open>null\<close> and absent
  entries: a \<open>null\<close> candidate is skipped with no call of \<open>getVersion\<close> (the state is
  untouched); a path with no file gives an undefined version, which satisfies no range,
  and the loop moves on after the one \<open>existsSync\<close>; the empty list gives \<open>undefined\<close>;
  and a list of only such entries gives \<open>undefined\<close> having run no binary.
\<close>

theorem selectTool_null_and_absent:
  "selectTool env (None # ls) rng w = selectTool env ls rng w \<and>
   (files w loc = None \<longrightarrow>
      getVersion env loc w = (None, emit (ExistsSync loc) w) \<and>
      \<not> semver_satisfies env (fst (getVersion env loc w)) rng \<and>
      selectTool env (Some loc # ls) rng w =
        selectTool env ls rng (if loc = [] then w else emit (ExistsSync loc) w)) \<and>
   selectTool env [] rng w = (None, w) \<and>
   ((\<forall>l\<in>set ls. l = None \<or> (\<exists>p. l = Some p \<and> files w p = None)) \<longrightarrow>
      fst (selectTool env ls rng w) = None \<and>
      (\<forall>e\<in>set (drop (length (trace w)) (trace (snd (selectTool env ls rng w)))).
         \<exists>p. e = ExistsSync p))"
proof (intro conjI impI)
  assume a: "files w loc = None"
  show "getVersion env loc w = (None, emit (ExistsSync loc) w)"
    using a by (rule getVersion_absent)
  then show "\<not> semver_satisfies env (fst (getVersion env loc w)) rng"
    by (simp add: semver_satisfies_def)
  show "selectTool env (Some loc # ls) rng w =
        selectTool env ls rng (if loc = [] then w else emit (ExistsSync loc) w)"
    using getVersion_absent[OF a] by (simp add: semver_satisfies_def)
next
  assume "\<forall>l\<in>set ls. l = None \<or> (\<exists>p. l = Some p \<and> files w p = None)"
  from selectTool_all_absent[OF this]
  show "fst (selectTool env ls rng w) = None"
    and "\<forall>e\<in>set (drop (length (trace w)) (trace (snd (selectTool env ls rng w)))). \<exists>p. e = ExistsSync p"
    by blast+
qed simp_all

theorem selectTool_null_and_absent_witness:
  "files cancel_world ''/usr/bin/kn'' = None \<and>
   selectTool linux_env [None, Some ''/usr/bin/kn'', None] ''0.13.1'' cancel_world =
     (None, emit (ExistsSync ''/usr/bin/kn'') cancel_world)"
proof -
  define w1 where "w1 = emit (ExistsSync ''/usr/bin/kn'') cancel_world"
  have a: "files cancel_world ''/usr/bin/kn'' = None"
    by (simp add: cancel_world_def world_of_def)
  have e: "(if ''/usr/bin/kn'' = [] then cancel_world else emit (ExistsSync ''/usr/bin/kn'') cancel_world) = w1"
    by (simp add: w1_def)
  have 1: "selectTool linux_env [None, Some ''/usr/bin/kn'', None] ''0.13.1'' cancel_world =
           selectTool linux_env [Some ''/usr/bin/kn'', None] ''0.13.1'' cancel_world"
    using selectTool_null_and_absent[of linux_env "[Some ''/usr/bin/kn'', None]" "''0.13.1''" cancel_world]
    by blast
  have 2: "selectTool linux_env [Some ''/usr/bin/kn'', None] ''0.13.1'' cancel_world =
           selectTool linux_env [None] ''0.13.1'' w1"
    using selectTool_null_and_absent[of linux_env "[None]" "''0.13.1''" cancel_world "''/usr/bin/kn''"] a
    unfolding e by blast
  have 3: "selectTool linux_env [None] ''0.13.1'' w1 = selectTool linux_env [] ''0.13.1'' w1"
    using selectTool_null_and_absent[of linux_env "[]" "''0.13.1''" w1]
    by blast
  have 4: "selectTool linux_env [] ''0.13.1'' w1 = (None, w1)"
    using selectTool_null_and_absent[of linux_env "[]" "''0.13.1''" w1]
    by blast
  show ?thesis using a 1 2 3 4 by (simp only: w1_def)
qed

section \<open>Detected versions\<close>

lemma strip_prefix_append: "strip_prefix p s = Some r \<Longrightarrow> s = p @ r"
  by (induction p s rule: strip_prefix.induct) (auto split: if_splits)

lemma digits1_shape: "digits1 s = Some (d, r) \<Longrightarrow> digit_run d \<and> s = d @ r"
  by (auto simp: digits1_def Let_def digit_run_def split: if_splits dest: set_takeWhileD)

lemma core_version_shape:
  assumes "core_version s = Some (v, r)"
  shows "\<exists>a b c. v = a @ ''.'' @ b @ ''.'' @ c \<and> digit_run a \<and> digit_run b \<and> digit_run c \<and> s = v @ r"
proof -
  from assms obtain a r1 where 1: "digits1 s = Some (a, r1)"
    by (auto simp: core_version_def split: option.splits)
  from assms 1 obtain r2 where 2: "r1 = CHR ''.'' # r2"
    by (auto simp: core_version_def split: list.splits if_splits)
  from assms 1 2 obtain b r3 where 3: "digits1 r2 = Some (b, r3)"
    by (auto simp: core_version_def split: option.splits)
  from assms 1 2 3 obtain r4 where 4: "r3 = CHR ''.'' # r4"
    by (auto simp: core_version_def split: list.splits if_splits)
  from assms 1 2 3 4 obtain c where 5: "digits1 r4 = Some (c, r)" "v = a @ ''.'' @ b @ ''.'' @ c"
    by (auto simp: core_version_def split: option.splits)
  show ?thesis
    using digits1_shape[OF 1] digits1_shape[OF 3] digits1_shape[OF 5(1)] 2 4 5(2) by auto
qed

lemma dotted_idents_shape:
  "dotted_idents s = (m, rest) \<Longrightarrow> s = m @ rest \<and> (\<forall>i. ident_run i \<longrightarrow> dotted (i @ m))"
proof (induction s arbitrary: m rest rule: dotted_idents.induct)
  case (1 s)
  show ?case
  proof (cases s)
    case Nil
    then show ?thesis using "1.prems" by (subst (asm) dotted_idents.simps) (auto intro: dotted.one)
  next
    case (Cons c r)
    show ?thesis
    proof (cases "c = CHR ''.'' \<and> takeWhile is_ident r \<noteq> []")
      case False
      then show ?thesis using "1.prems" Cons
        by (subst (asm) dotted_idents.simps) (auto intro: dotted.one)
    next
      case True
      obtain m' rest' where d: "dotted_idents (dropWhile is_ident r) = (m', rest')"
        by (cases "dotted_idents (dropWhile is_ident r)")
      have m: "m = c # takeWhile is_ident r @ m'" "rest = rest'"
        using "1.prems" Cons True d by (subst (asm) dotted_idents.simps, simp)+
      note ih = "1.IH"[OF Cons True d]
      have run: "ident_run (takeWhile is_ident r)"
        using True by (auto simp: ident_run_def dest: set_takeWhileD)
      have a: "s = m @ rest"
        using ih m Cons True takeWhile_dropWhile_id[of is_ident r] by (metis append_Cons append_assoc)
      have "\<forall>i. ident_run i \<longrightarrow> dotted (i @ m)"
      proof (intro allI impI)
        fix i assume i: "ident_run i"
        have "dotted (takeWhile is_ident r @ m')" using ih run by blast
        from dotted.more[OF i this] show "dotted (i @ m)" using m True by simp
      qed
      with a show ?thesis by blast
    qed
  qed
qed

lemma opt_tagged_shape:
  assumes "opt_tagged tag s = (m, rest)"
  shows "s = m @ rest \<and> (m = [] \<or> (\<exists>i. m = tag # i \<and> dotted i))"
proof (cases s)
  case Nil
  then show ?thesis using assms by (simp add: opt_tagged_def)
next
  case (Cons c r)
  show ?thesis
  proof (cases "c = tag \<and> takeWhile is_ident r \<noteq> []")
    case False
    then show ?thesis using assms Cons by (auto simp: opt_tagged_def)
  next
    case True
    obtain m' rest' where d: "dotted_idents (dropWhile is_ident r) = (m', rest')"
      by (cases "dotted_idents (dropWhile is_ident r)")
    have m: "m = tag # takeWhile is_ident r @ m'" "rest = rest'"
      using assms Cons True d by (simp_all add: opt_tagged_def)
    have run: "ident_run (takeWhile is_ident r)"
      using True by (auto simp: ident_run_def dest: set_takeWhileD)
    have "s = m @ rest"
      using dotted_idents_shape[OF d] m Cons True takeWhile_dropWhile_id[of is_ident r]
      by (metis append_Cons append_assoc)
    moreover have "dotted (takeWhile is_ident r @ m')"
      using dotted_idents_shape[OF d] run by blast
    ultimately show ?thesis using m by blast
  qed
qed

lemma match_here_shape:
  assumes "match_here s = Some v"
  shows "semver_shaped v \<and>
         (\<exists>ws rest. s = ''Version:'' @ ws @ ''v'' @ v @ rest \<and> ws \<noteq> [] \<and> (\<forall>c\<in>set ws. is_space c))"
proof -
  from assms obtain r1 where 1: "strip_prefix ''Version:'' s = Some r1"
    by (auto simp: match_here_def split: option.splits)
  define ws where "ws = takeWhile is_space r1"
  from assms 1 have ws: "ws \<noteq> []"
    by (auto simp: match_here_def ws_def split: if_splits)
  from assms 1 ws obtain r2 where 2: "dropWhile is_space r1 = CHR ''v'' # r2"
    by (auto simp: match_here_def ws_def split: list.splits if_splits)
  from assms 1 ws 2 obtain core r3 where 3: "core_version r2 = Some (core, r3)"
    by (auto simp: match_here_def ws_def split: option.splits)
  obtain pre r4 where 4: "opt_tagged CHR ''-'' r3 = (pre, r4)" by (cases "opt_tagged CHR ''-'' r3")
  obtain build r5 where 5: "opt_tagged CHR ''+'' r4 = (build, r5)" by (cases "opt_tagged CHR ''+'' r4")
  have v: "v = core @ pre @ build"
    using assms 1 ws 2 3 4 5 by (simp add: match_here_def ws_def)
  from core_version_shape[OF 3] obtain a b c where
    c: "core = a @ ''.'' @ b @ ''.'' @ c" "digit_run a" "digit_run b" "digit_run c" "r2 = core @ r3"
    by blast
  note p = opt_tagged_shape[OF 4] and b = opt_tagged_shape[OF 5]
  have "semver_shaped v"
    unfolding semver_shaped_def
    apply (rule exI[of _ a], rule exI[of _ b], rule exI[of _ c], rule exI[of _ pre], rule exI[of _ build])
    using v c p b by auto
  moreover have "s = ''Version:'' @ ws @ ''v'' @ v @ r5"
  proof -
    have "r1 = ws @ CHR ''v'' # r2"
      using takeWhile_dropWhile_id[of is_space r1] 2 by (simp add: ws_def)
    then show ?thesis using strip_prefix_append[OF 1] c(5) p b v by simp
  qed
  moreover have "\<forall>c\<in>set ws. is_space c"
    by (auto simp: ws_def dest: set_takeWhileD)
  ultimately show ?thesis using ws by blast
qed

lemma version_exec_shape:
  "version_exec s = Some v \<Longrightarrow> semver_shaped v \<and> version_line v s"
proof (induction s)
  case Nil
  from match_here_shape[of "[]" v] Nil show ?case by simp
next
  case (Cons c cs)
  show ?case
  proof (cases "match_here (c # cs)")
    case (Some u)
    then have "u = v" using Cons.prems by simp
    with match_here_shape[OF Some] show ?thesis
      unfolding version_line_def by (metis append_Nil)
  next
    case None
    then have "version_exec cs = Some v" using Cons.prems by simp
    from Cons.IH[OF this] obtain before ws rest where
      "cs = before @ ''Version:'' @ ws @ ''v'' @ v @ rest" "ws \<noteq> []" "\<forall>c\<in>set ws. is_space c"
      and sh: "semver_shaped v"
      unfolding version_line_def by blast
    then have "c # cs = (c # before) @ ''Version:'' @ ws @ ''v'' @ v @ rest \<and> ws \<noteq> [] \<and> (\<forall>c\<in>set ws. is_space c)"
      by simp
    then show ?thesis using sh unfolding version_line_def by blast
  qed
qed

lemma map_filter_head: "List.map_filter f xs = v # vs \<Longrightarrow> \<exists>x\<in>set xs. f x = Some v"
  by (induction xs) (auto simp: List.map_filter_simps split: option.splits)


lemma toolVersion_empty: "toolVersion [] = []"
  by (simp add: toolVersion_def trim_def List.map_filter_simps match_here_def)

lemma getVersion_present:
  "files w loc = Some binary \<Longrightarrow>
     getVersion env loc w =
       (case run_version env binary of None \<Rightarrow> None
        | Some out \<Rightarrow> (case toolVersion out of [] \<Rightarrow> None | v # vs \<Rightarrow> Some v),
        emit (Execute ([CHR 0x22] @ loc @ [CHR 0x22] @ '' version'')) (emit (ExistsSync loc) w))"
  by (auto simp: getVersion_def emit_def Let_def toolVersion_empty split: option.splits list.splits)

lemma getVersion_shape:
  assumes "files w loc = Some binary" "fst (getVersion env loc w) = Some v"
  shows "semver_shaped v \<and>
         (\<exists>out. run_version env binary = Some out \<and>
                (\<exists>line\<in>set (split_on (CHR 0x0A) (trim out)). version_line v line))"
proof -
  from assms obtain out where o: "run_version env binary = Some out"
    by (auto simp: getVersion_present split: option.splits)
  with assms obtain vs where "toolVersion out = v # vs"
    by (auto simp: getVersion_present split: list.splits)
  then obtain line where "line \<in> set (split_on (CHR 0x0A) (trim out))" "version_exec line = Some v"
    unfolding toolVersion_def using map_filter_head by fastforce
  then show ?thesis using version_exec_shape o by blast
qed

text \<open>
  C6. The check of one candidate. When no file is at the path, \<open>getVersion\<close> only looks
  the path up and returns \<open>undefined\<close>, which satisfies no range. When a file is there,
  the binary is run with the argument \<open>version\<close>; the result is group 2 of the first
  line of the trimmed output that matches the version pattern (\<open>undefined\<close> when there
  is no output or no such line), so a detected version has the shape of a semantic
  version and stands in a line of the output after \<open>Version:\<close>, white space and \<open>v\<close>.
  \<open>selectTool\<close> takes a non-empty candidate exactly when that result satisfies the
  range, and goes on to the next candidate otherwise.
\<close>

theorem getVersion_per_candidate:
  "(files w loc = None \<longrightarrow>
      getVersion env loc w = (None, emit (ExistsSync loc) w) \<and>
      (\<forall>rng. \<not> semver_satisfies env (fst (getVersion env loc w)) rng)) \<and>
   (files w loc = Some binary \<longrightarrow>
      snd (getVersion env loc w) =
        emit (Execute ([CHR 0x22] @ loc @ [CHR 0x22] @ '' version'')) (emit (ExistsSync loc) w) \<and>
      fst (getVersion env loc w) =
        (case run_version env binary of None \<Rightarrow> None
         | Some out \<Rightarrow>
           (case List.map_filter version_exec (split_on (CHR 0x0A) (trim out)) of
              [] \<Rightarrow> None | v # vs \<Rightarrow> Some v)) \<and>
      (\<forall>v. fst (getVersion env loc w) = Some v \<longrightarrow>
           semver_shaped v \<and>
           (\<exists>out. run_version env binary = Some out \<and>
                  (\<exists>line\<in>set (split_on (CHR 0x0A) (trim out)). version_line v line)))) \<and>
   (loc \<noteq> [] \<longrightarrow>
      selectTool env (Some loc # ls) rng w =
        (if semver_satisfies env (fst (getVersion env loc w)) rng
         then (Some loc, snd (getVersion env loc w))
         else selectTool env ls rng (snd (getVersion env loc w))))"
proof (intro conjI impI allI)
  assume "files w loc = None"
  then show "getVersion env loc w = (None, emit (ExistsSync loc) w)"
    by (rule getVersion_absent)
  then show "\<not> semver_satisfies env (fst (getVersion env loc w)) rng" for rng
    by (simp add: semver_satisfies_def)
next
  assume f: "files w loc = Some binary"
  show "snd (getVersion env loc w) =
        emit (Execute ([CHR 0x22] @ loc @ [CHR 0x22] @ '' version'')) (emit (ExistsSync loc) w)"
    by (simp add: getVersion_present[OF f])
  show "fst (getVersion env loc w) =
        (case run_version env binary of None \<Rightarrow> None
         | Some out \<Rightarrow>
           (case List.map_filter version_exec (split_on (CHR 0x0A) (trim out)) of
              [] \<Rightarrow> None | v # vs \<Rightarrow> Some v))"
    by (simp add: getVersion_present[OF f] toolVersion_def split: option.splits)
  fix v assume v: "fst (getVersion env loc w) = Some v"
  from getVersion_shape[OF f v]
  show "semver_shaped v"
    and "\<exists>out. run_version env binary = Some out \<and>
                  (\<exists>line\<in>set (split_on (CHR 0x0A) (trim out)). version_line v line)"
    by blast+
next
  assume "loc \<noteq> []"
  then show "selectTool env (Some loc # ls) rng w =
        (if semver_satisfies env (fst (getVersion env loc w)) rng
         then (Some loc, snd (getVersion env loc w))
         else selectTool env ls rng (snd (getVersion env loc w)))"
    by (simp split: prod.splits)
qed

theorem getVersion_per_candidate_witness:
  "files path_world ''/usr/bin/kn'' = Some ''Version:      v0.13.1'' \<and>
   fst (getVersion linux_env ''/usr/bin/kn'' path_world) = Some ''0.13.1'' \<and>
   semver_shaped ''0.13.1'' \<and>
   files path_world ''/home/u/.vs-kn/kn'' = None \<and>
   getVersion linux_env ''/home/u/.vs-kn/kn'' path_world =
     (None, emit (ExistsSync ''/home/u/.vs-kn/kn'') path_world)"
proof -
  have f: "files path_world ''/usr/bin/kn'' = Some ''Version:      v0.13.1''"
    by (simp add: path_world_def world_of_def)
  have g: "fst (getVersion linux_env ''/usr/bin/kn'' path_world) = Some ''0.13.1''"
    by (simp add: eval_defs path_world_def List.map_filter_def)
  have n: "files path_world ''/home/u/.vs-kn/kn'' = None"
    by (simp add: path_world_def world_of_def)
  note T = getVersion_per_candidate[of path_world _ linux_env]
  have "semver_shaped ''0.13.1''"
    using T[of "''/usr/bin/kn''" "''Version:      v0.13.1''"] f g by blast
  moreover have "getVersion linux_env ''/home/u/.vs-kn/kn'' path_world =
     (None, emit (ExistsSync ''/home/u/.vs-kn/kn'') path_world)"
    using T[of "''/home/u/.vs-kn/kn''"] n by blast
  ultimately show ?thesis using f g n by blast
qed

section \<open>Which locations are recorded\<close>

lemma selectTool_Some:
  "selectTool env ls rng w = (Some p, w') \<Longrightarrow> Some p \<in> set ls \<and> acceptable env rng w (Some p)"
proof (induction ls arbitrary: w)
  case Nil
  then show ?case by simp
next
  case (Cons l ls)
  show ?case
  proof (cases "l = None \<or> l = Some []")
    case True
    then show ?thesis using Cons.prems Cons.IH[of w] by auto
  next
    case False
    then obtain loc where l: "l = Some loc" "loc \<noteq> []" by (cases l) auto
    obtain v w1 where g: "getVersion env loc w = (v, w1)" by (cases "getVersion env loc w")
    have f: "files w1 = files w" using getVersion_frame[OF g] by simp
    show ?thesis
    proof (cases "semver_satisfies env v rng")
      case True
      then show ?thesis using Cons.prems l g by (simp add: acceptable_def)
    next
      case False
      then have "selectTool env ls rng w1 = (Some p, w')" using Cons.prems l g by simp
      from Cons.IH[OF this] show ?thesis using acceptable_files_only[OF f] by simp
    qed
  qed
qed

lemma selectTool_None:
  "selectTool env ls rng w = (None, w') \<Longrightarrow> \<forall>l\<in>set ls. \<not> acceptable env rng w l"
proof (induction ls arbitrary: w)
  case Nil
  then show ?case by simp
next
  case (Cons l ls)
  show ?case
  proof (cases "l = None \<or> l = Some []")
    case True
    then show ?thesis using Cons.prems Cons.IH[of w] by (auto simp: acceptable_def)
  next
    case False
    then obtain loc where l: "l = Some loc" "loc \<noteq> []" by (cases l) auto
    obtain v w1 where g: "getVersion env loc w = (v, w1)" by (cases "getVersion env loc w")
    have f: "files w1 = files w" using getVersion_frame[OF g] by simp
    have n: "\<not> semver_satisfies env v rng" using Cons.prems l g by (auto split: if_splits)
    then have "selectTool env ls rng w1 = (None, w')" using Cons.prems l g by simp
    from Cons.IH[OF this] show ?thesis using acceptable_files_only[OF f] n l g by (simp add: acceptable_def)
  qed
qed

lemma unzip_to_trace:
  "unzip_to env z d p w = (r, w') \<Longrightarrow> trace w' = trace w @ [Unzip z d p]"
  by (auto simp: unzip_to_def emit_def Let_def split: option.splits)

lemma install_unsupported:
  "\<not> supported dl \<Longrightarrow>
   install env t dl cache w =
     (if os env \<noteq> ''win32'' \<and> ((files w)(dl := None)) cache = None
      then (Inl ChmodFailed, emit (ChmodSync cache) (emit (RemoveSync dl) (w\<lparr>files := (files w)(dl := None)\<rparr>)))
      else (Inr (Some cache),
            if os env \<noteq> ''win32''
            then emit (ChmodSync cache) (emit (RemoveSync dl) (w\<lparr>files := (files w)(dl := None)\<rparr>))
            else emit (RemoveSync dl) (w\<lparr>files := (files w)(dl := None)\<rparr>)))"
  by (simp add: install_def supported_def Let_def emit_def)

lemma install_trace:
  assumes "install env t dl cache w = (r, w')"
  shows "\<exists>tr. trace w' = trace w @ tr \<and> (\<forall>e\<in>set tr. is_unzip e \<longrightarrow> supported dl)"
proof (cases "supported dl")
  case True
  then show ?thesis using install_frame[OF assms] by auto
next
  case False
  then show ?thesis using assms by (auto simp: install_unsupported emit_def split: if_splits)
qed


lemma request_download_cases:
  assumes "request_download env cmd t cache w = Some (r, w')"
  obtains (declined) a rest where "answers w = a # rest"
      "a \<noteq> Some (''Download and install v'' @ version t)" "r = Inr None"
      "tools w' = tools w" "\<exists>tr. trace w' = trace w @ tr \<and> (\<forall>e\<in>set tr. \<not> is_unzip e)"
  | (rejected) rest e w2 w3 where "answers w = Some (''Download and install v'' @ version t) # rest"
      "download_loop env t (path_resolve env (home env) [''.vs-kn'', dlFileName t]) w2 = Some (Inl e, w3)"
      "r = Inl e" "w' = w3" "tools w2 = tools w" "\<exists>tr. trace w2 = trace w @ tr \<and> (\<forall>e\<in>set tr. \<not> is_unzip e)"
  | (cancelled) rest w2 w3 where "answers w = Some (''Download and install v'' @ version t) # rest"
      "download_loop env t (path_resolve env (home env) [''.vs-kn'', dlFileName t]) w2 = Some (Inr (Some ''Cancel''), w3)"
      "r = Inr None" "w' = w3" "tools w2 = tools w" "\<exists>tr. trace w2 = trace w @ tr \<and> (\<forall>e\<in>set tr. \<not> is_unzip e)"
  | (install_failed) rest action e w2 w3 w4 where "answers w = Some (''Download and install v'' @ version t) # rest"
      "download_loop env t (path_resolve env (home env) [''.vs-kn'', dlFileName t]) w2 = Some (Inr action, w3)"
      "action \<noteq> Some ''Cancel''"
      "install env t (path_resolve env (home env) [''.vs-kn'', dlFileName t]) cache w3 = (Inl e, w4)"
      "r = Inl e" "w' = w4" "tools w2 = tools w" "\<exists>tr. trace w2 = trace w @ tr \<and> (\<forall>e\<in>set tr. \<not> is_unzip e)"
  | (installed) rest action w2 w3 w4 where "answers w = Some (''Download and install v'' @ version t) # rest"
      "download_loop env t (path_resolve env (home env) [''.vs-kn'', dlFileName t]) w2 = Some (Inr action, w3)"
      "action \<noteq> Some ''Cancel''"
      "install env t (path_resolve env (home env) [''.vs-kn'', dlFileName t]) cache w3 = (Inr (Some cache), w4)"
      "record_location cmd (Some cache) w4 = Some (r, w')"
      "tools w2 = tools w" "\<exists>tr. trace w2 = trace w @ tr \<and> (\<forall>e\<in>set tr. \<not> is_unzip e)"
      "files w2 = files w" "answers w2 = rest" "downloads w2 = downloads w"
proof -
  from assms obtain a rest where ans: "answers w = a # rest"
    by (cases "answers w") (auto simp: request_download_def Let_def)
  define dl where "dl = path_resolve env (home env) [''.vs-kn'', dlFileName t]"
  define w2 where "w2 = emit (EnsureDirSync (path_resolve env (home env) [''.vs-kn'']))
                         (emit (ShowInformationMessage
                            (''Cannot find '' @ description t @ '' '' @ versionRangeLabel t @ ''.'')
                            [''Download and install v'' @ version t, ''Help'', ''Cancel''])
                          (w\<lparr>answers := rest\<rparr>))"
  have w2: "tools w2 = tools w" "\<exists>tr. trace w2 = trace w @ tr \<and> (\<forall>e\<in>set tr. \<not> is_unzip e)"
    by (simp_all add: w2_def emit_def)
  have w2s: "files w2 = files w" "answers w2 = rest" "downloads w2 = downloads w"
    by (simp_all add: w2_def emit_def)
  show ?thesis
  proof (cases "a = Some (''Download and install v'' @ version t)")
    case False
    then have "r = Inr None \<and> (w' = w2 \<or> w' = emit OpenHelp w2)"
      using assms ans
      by (auto simp: request_download_def Let_def w2_def record_location_def split: if_splits)
    then have "r = Inr None" "tools w' = tools w"
      "\<exists>tr. trace w' = trace w @ tr \<and> (\<forall>e\<in>set tr. \<not> is_unzip e)"
      by (auto simp: w2_def emit_def)
    with ans False show ?thesis by (rule declined)
  next
    case True
    then obtain r3 w3 where d: "download_loop env t dl w2 = Some (r3, w3)"
      using assms ans by (auto simp: request_download_def Let_def dl_def w2_def split: option.splits)
    show ?thesis
    proof (cases r3)
      case (Inl e)
      then have "r = Inl e" "w' = w3"
        using assms ans True d by (auto simp: request_download_def Let_def dl_def w2_def)
      with ans True d Inl w2 show ?thesis unfolding dl_def by (auto intro: rejected)
    next
      case (Inr action)
      show ?thesis
      proof (cases "action = Some ''Cancel''")
        case c: True
        then have "r = Inr None" "w' = w3"
          using assms ans True d Inr
          by (auto simp: request_download_def Let_def dl_def w2_def record_location_def)
        with ans True d Inr c w2 show ?thesis unfolding dl_def by (auto intro: cancelled)
      next
        case c: False
        obtain r4 w4 where i: "install env t dl cache w3 = (r4, w4)"
          by (cases "install env t dl cache w3")
        show ?thesis
        proof (cases r4)
          case (Inl e)
          then have "r = Inl e" "w' = w4"
            using assms ans True d Inr c i
            by (auto simp: request_download_def Let_def dl_def w2_def)
          with ans True d Inr c i Inl w2 show ?thesis unfolding dl_def by (auto intro: install_failed)
        next
          case r4: (Inr l)
          then have l: "l = Some cache" using install_result i by blast
          have "record_location cmd (Some cache) w4 = Some (r, w')"
            using assms ans True d Inr c i r4 l
            by (auto simp: request_download_def Let_def dl_def w2_def)
          with ans True d Inr c i r4 l w2 w2s show ?thesis unfolding dl_def by (auto intro: installed)
        qed
      qed
    qed
  qed
qed


lemma request_download_trace:
  assumes "request_download env cmd t cache w = Some (r, w')"
  shows "\<exists>tr. trace w' = trace w @ tr \<and>
          (\<forall>e\<in>set tr. is_unzip e \<longrightarrow> supported (path_resolve env (home env) [''.vs-kn'', dlFileName t]))"
  using assms
proof (cases rule: request_download_cases)
  case (declined a rest)
  then show ?thesis by auto
next
  case (rejected rest e w2 w3)
  from download_loop_frame[OF rejected(2)] rejected(4,6) show ?thesis by auto
next
  case (cancelled rest w2 w3)
  from download_loop_frame[OF cancelled(2)] cancelled(4,6) show ?thesis by auto
next
  case (install_failed rest action e w2 w3 w4)
  from download_loop_frame[OF install_failed(2)] install_trace[OF install_failed(4)]
    install_failed(6,8)
  show ?thesis by auto
next
  case (installed rest action w2 w3 w4)
  from download_loop_frame[OF installed(2)] install_trace[OF installed(4)]
    record_location_frame[OF installed(5)] installed(7)
  show ?thesis by auto
qed







lemma detectOrDownload_unzip_only_supported:
  assumes "tools w cmd = Some t" "detectOrDownload env cmd w = Some (r, w')"
  shows "\<forall>e\<in>set (drop (length (trace w)) (trace w')).
           is_unzip e \<longrightarrow> supported (path_resolve env (home env) [''.vs-kn'', dlFileName t])"
proof (cases "location t")
  case (Some p)
  then show ?thesis using assms by (simp add: detectOrDownload_def)
next
  case None
  define cache where "cache = path_resolve env (home env) [''.vs-kn'', cmdFileName t]"
  obtain sel w2 where s: "selectTool env [which env cmd, Some cache] (versionRange t) (emit (Which cmd) w) = (sel, w2)"
    by (cases "selectTool env [which env cmd, Some cache] (versionRange t) (emit (Which cmd) w)")
  obtain t2 where t2: "trace w2 = trace w @ Which cmd # t2" "\<forall>e\<in>set t2. \<not> is_unzip e"
    using selectTool_trace[of env "[which env cmd, Some cache]" "versionRange t" "emit (Which cmd) w"] s
    by (auto simp: emit_def)
  show ?thesis
  proof (cases sel)
    case (Some q)
    then have "record_location cmd (Some q) w2 = Some (r, w')"
      using assms None s by (simp add: detectOrDownload_def Let_def cache_def)
    from record_location_frame[OF this] t2 show ?thesis by auto
  next
    case n: None
    then have "request_download env cmd t cache w2 = Some (r, w')"
      using assms None s by (simp add: detectOrDownload_def Let_def cache_def)
    from request_download_trace[OF this] t2 show ?thesis by auto
  qed
qed


lemma download_attempt_errors:
  "download_attempt env t dl w = Some (Inl e, w') \<Longrightarrow> e = DownloadFailed \<or> e = HashFailed"
  by (auto simp: download_attempt_def emit_def Let_def split: list.splits option.splits if_splits)

lemma download_loop_errors:
  "download_loop env t dl w = Some (Inl e, w') \<Longrightarrow> e = DownloadFailed \<or> e = HashFailed"
proof (induction env t dl w rule: download_loop.induct)
  case (1 env t dl w)
  from "1.prems" obtain r1 w1 where a: "download_attempt env t dl w = Some (r1, w1)"
    by (subst (asm) download_loop.simps) (auto split: option.splits)
  show ?case
  proof (cases "r1 = Inr (Some ''Download again'')")
    case True
    then have "download_loop env t dl w1 = Some (Inl e, w')"
      using "1.prems" a by (subst (asm) download_loop.simps) simp
    then show ?thesis using "1.IH"[OF a _ ] True by simp
  next
    case False
    then have "r1 = Inl e \<and> w' = w1"
      using "1.prems" a by (subst (asm) download_loop.simps) (auto split: sum.splits if_splits)
    then show ?thesis using download_attempt_errors a by blast
  qed
qed

lemmas scenario_defs = kn_raw_tool_def stale_world_def kn_unversioned_tool_def
  install_world_def win_home_def win32_env_def kn_exe_tool_def dismiss_world_def
  bare_linux_env_def retry_world_def win_raw_world_def




section \<open>Downloads that are not archives\<close>

lemma install_unsupported_files:
  "\<not> supported dl \<Longrightarrow> install env t dl cache w = (r, w') \<Longrightarrow> files w' = (files w)(dl := None)"
  by (auto simp: install_unsupported emit_def split: if_splits)

text \<open>
  C4. For a download whose name ends with none of \<open>.zip\<close>, \<open>.tar.gz\<close>, \<open>.gz\<close> the
  install step has no branch. Nothing is extracted (lemma
  \<open>detectOrDownload_unzip_only_supported\<close>), but the step is not aborted: the download,
  whose digest is the expected one, is removed without having been put at the cache path
  (lemma \<open>install_unsupported_files\<close>), and the cache path is recorded as the tool's
  location all the same. On Linux with an old binary in the cache directory the recorded
  location holds the binary that detection had just turned down; on Windows with an empty
  cache directory no file is at the recorded location.
\<close>

theorem unsupported_extension_resolves:
  "\<not> endsWith ''/home/u/.vs-kn/kn-linux-amd64'' ''.zip'' \<and>
   \<not> endsWith ''/home/u/.vs-kn/kn-linux-amd64'' ''.tar.gz'' \<and>
   \<not> endsWith ''/home/u/.vs-kn/kn-linux-amd64'' ''.gz'' \<and>
   path_resolve bare_linux_env (home bare_linux_env) [''.vs-kn'', dlFileName kn_raw_tool] =
     ''/home/u/.vs-kn/kn-linux-amd64'' \<and>
   sha256 bare_linux_env ''Version:      v0.13.1'' = sha256sum kn_raw_tool \<and>
   \<not> acceptable bare_linux_env (versionRange kn_raw_tool) stale_world (Some ''/home/u/.vs-kn/kn'') \<and>
   (case detectOrDownload bare_linux_env ''kn'' stale_world of
      None \<Rightarrow> False
    | Some (r, w') \<Rightarrow>
        r = Inr (Some ''/home/u/.vs-kn/kn'') \<and>
        map_option location (tools w' ''kn'') = Some (Some ''/home/u/.vs-kn/kn'') \<and>
        files w' ''/home/u/.vs-kn/kn'' = Some ''Version:      v0.12.0'' \<and>
        files w' ''/home/u/.vs-kn/kn-linux-amd64'' = None \<and>
        filter is_unzip (trace w') = []) \<and>
   \<not> supported (win_home @ [CHR 0x5C] @ ''.vs-kn'' @ [CHR 0x5C] @ ''kn-windows-amd64.exe'') \<and>
   path_resolve win32_env (home win32_env) [''.vs-kn'', dlFileName kn_exe_tool] =
     win_home @ [CHR 0x5C] @ ''.vs-kn'' @ [CHR 0x5C] @ ''kn-windows-amd64.exe'' \<and>
   sha256 win32_env ''Version:      v0.13.1'' = sha256sum kn_exe_tool \<and>
   (case detectOrDownload win32_env ''kn'' win_raw_world of
      None \<Rightarrow> False
    | Some (r, w') \<Rightarrow>
        r = Inr (Some (win_home @ [CHR 0x5C] @ ''.vs-kn'' @ [CHR 0x5C] @ ''kn.exe'')) \<and>
        map_option location (tools w' ''kn'') =
          Some (Some (win_home @ [CHR 0x5C] @ ''.vs-kn'' @ [CHR 0x5C] @ ''kn.exe'')) \<and>
        files w' (win_home @ [CHR 0x5C] @ ''.vs-kn'' @ [CHR 0x5C] @ ''kn.exe'') = None \<and>
        files w' (win_home @ [CHR 0x5C] @ ''.vs-kn'' @ [CHR 0x5C] @ ''kn-windows-amd64.exe'') = None \<and>
        filter is_unzip (trace w') = [])"
  by (simp add: eval_defs scenario_defs acceptable_def supported_def List.map_filter_def)

section \<open>Checksum mismatch\<close>

lemma download_attempt_mismatch:
  assumes "downloads w = Some bytes # ds" "sha256 env bytes \<noteq> sha256sum t" "answers w = a # rest"
  shows "\<exists>w'. download_attempt env t dl w = Some (Inr a, w') \<and> files w' dl = None \<and>
              RemoveSync dl \<in> set (trace w') \<and> tools w' = tools w"
  using assms by (simp add: download_attempt_def emit_def Let_def)

text \<open>
  C2. On a digest mismatch the download is removed, whatever the user answers next
  (lemma \<open>download_attempt_mismatch\<close>). That the tool is then not marked as resolved
  fails for one answer: when the checksum prompt is dismissed, \<open>action\<close> is \<open>undefined\<close>,
  the test \<open>action !== 'Cancel'\<close> passes and the install step runs on the removed file.
  Here the download has no archive extension and the platform is \<open>win32\<close>: the cache
  path is recorded as the location although no file is there.
\<close>

theorem checksum_mismatch_dismissed:
  "sha256 win32_env ''corrupt'' \<noteq> sha256sum kn_exe_tool \<and>
   (case detectOrDownload win32_env ''kn'' dismiss_world of
      None \<Rightarrow> False
    | Some (r, w') \<Rightarrow>
        r = Inr (Some (win_home @ [CHR 0x5C] @ ''.vs-kn'' @ [CHR 0x5C] @ ''kn.exe'')) \<and>
        map_option location (tools w' ''kn'') =
          Some (Some (win_home @ [CHR 0x5C] @ ''.vs-kn'' @ [CHR 0x5C] @ ''kn.exe'')) \<and>
        files w' (win_home @ [CHR 0x5C] @ ''.vs-kn'' @ [CHR 0x5C] @ ''kn-windows-amd64.exe'') = None \<and>
        files w' (win_home @ [CHR 0x5C] @ ''.vs-kn'' @ [CHR 0x5C] @ ''kn.exe'') = None \<and>
        answers w' = [])"
  by (simp add: eval_defs scenario_defs List.map_filter_def)

section \<open>loadMetadata leaves its input alone\<close>

lemma json_parse_extends:
  "json_parse j h = (v, h1) \<Longrightarrow> n0 \<le> length h \<Longrightarrow> closed_above n0 h \<Longrightarrow>
     (\<exists>cs. h1 = h @ cs) \<and> fresh n0 (Some v) \<and> closed_above n0 h1"
  "parse_props js h = (ps, h1) \<Longrightarrow> n0 \<le> length h \<Longrightarrow> closed_above n0 h \<Longrightarrow>
     (\<exists>cs. h1 = h @ cs) \<and> (\<forall>p\<in>set ps. fresh n0 (Some (snd p))) \<and> closed_above n0 h1"
proof (induction j h and js h arbitrary: v h1 and ps h1 rule: json_parse_parse_props.induct)
  case (5 k js h)
  obtain ps h' where p: "parse_props js h = (ps, h')" by (cases "parse_props js h")
  from "5.IH"[OF p "5.prems"(2,3)] obtain cs where
    cs: "h' = h @ cs" and f: "\<forall>p\<in>set ps. fresh n0 (Some (snd p))" and c: "closed_above n0 h'"
    by blast
  have v: "v = VRef (length h')" "h1 = h' @ [(k, ps)]" using "5.prems"(1) p by auto
  have "closed_above n0 h1"
    unfolding closed_above_def v
  proof (intro allI impI)
    fix a assume a: "n0 \<le> a \<and> a < length (h' @ [(k, ps)])"
    show "\<forall>p\<in>set (snd ((h' @ [(k, ps)]) ! a)). fresh n0 (Some (snd p))"
    proof (cases "a < length h'")
      case True
      then show ?thesis using c a by (simp add: closed_above_def nth_append)
    next
      case False
      then have "a = length h'" using a by simp
      then show ?thesis using f by simp
    qed
  qed
  moreover have "fresh n0 (Some v)" using v cs "5.prems"(2) by (simp add: fresh_def)
  ultimately show ?case using v cs by auto
next
  case (7 key j js h)
  obtain v1 h2 where j: "json_parse j h = (v1, h2)" by (cases "json_parse j h")
  obtain ps2 h3 where p: "parse_props js h2 = (ps2, h3)" by (cases "parse_props js h2")
  from "7.IH"(1)[OF j "7.prems"(2,3)] obtain cs where
    1: "h2 = h @ cs" "fresh n0 (Some v1)" "closed_above n0 h2" by blast
  have "n0 \<le> length h2" using 1(1) "7.prems"(2) by simp
  from "7.IH"(2)[OF j[symmetric] p this 1(3)] obtain cs' where
    2: "h3 = h2 @ cs'" "\<forall>p\<in>set ps2. fresh n0 (Some (snd p))" "closed_above n0 h3" by blast
  have "ps = (key, v1) # ps2" "h1 = h3" using "7.prems"(1) j p by auto
  then show ?case using 1 2 by auto
qed (auto simp: fresh_def)


lemma set_clearjunk_subset: "set (AList.clearjunk al) \<subseteq> set al"
proof
  fix p assume "p \<in> set (AList.clearjunk al)"
  then have "map_of al (fst p) = Some (snd p)"
    using graph_map_of[of al] by (metis in_graphD prod.collapse)
  then show "p \<in> set al" by (metis map_of_SomeD prod.collapse)
qed

lemma set_update_subset: "set (AList.update k v ps) \<subseteq> insert (k, v) (set ps)"
  by (induction ps) auto

lemma set_delete_subset: "set (AList.delete k ps) \<subseteq> set ps"
  by (auto simp: AList.delete_eq)

lemma set_assign_subset:
  "set (foldl (\<lambda>ps (k, v). AList.update k v ps) ps ops) \<subseteq> set ps \<union> set ops"
proof (induction ops arbitrary: ps)
  case Nil
  then show ?case by simp
next
  case (Cons p ops)
  obtain k v where p: "p = (k, v)" by (cases p)
  show ?case using Cons.IH[of "AList.update k v ps"] set_update_subset[of k v ps] p by auto
qed

lemma own_props_fresh:
  assumes "closed_above n0 h" "fresh n0 (Some v)"
  shows "\<forall>p\<in>set (own_props h v). fresh n0 (Some (snd p))"
proof (cases v)
  case (VRef a)
  show ?thesis
  proof (cases "a < length h")
    case True
    then have "\<forall>p\<in>set (snd (h ! a)). fresh n0 (Some (snd p))"
      using assms VRef by (simp add: closed_above_def fresh_def)
    then show ?thesis using VRef True set_clearjunk_subset[of "snd (h ! a)"]
      by (auto simp: own_props_def)
  next
    case False
    then show ?thesis using VRef by (simp add: own_props_def)
  qed
qed (auto simp: own_props_def index_props_def fresh_def)

lemma get_fresh:
  assumes "closed_above n0 h" "fresh n0 base" "get h base key = Inr r"
  shows "fresh n0 r"
proof (cases r)
  case None
  then show ?thesis by (simp add: fresh_def)
next
  case (Some x)
  from assms(3) obtain v where v: "base = Some v" "map_of (own_props h v) key = Some x"
    using Some by (auto simp: get_def split: option.splits val.splits)
  then have "(key, x) \<in> set (own_props h v)" by (simp add: map_of_SomeD)
  then show ?thesis using own_props_fresh[OF assms(1)] assms(2) v(1) Some by fastforce
qed

lemma closed_above_update:
  assumes "closed_above n0 h" "\<forall>p\<in>set ps. fresh n0 (Some (snd p))"
  shows "closed_above n0 (h[a := (k, ps)])"
  unfolding closed_above_def
proof (intro allI impI)
  fix b assume b: "n0 \<le> b \<and> b < length (h[a := (k, ps)])"
  show "\<forall>p\<in>set (snd (h[a := (k, ps)] ! b)). fresh n0 (Some (snd p))"
  proof (cases "b = a")
    case True
    then show ?thesis using assms(2) b by simp
  next
    case False
    then show ?thesis using assms(1) b by (simp add: closed_above_def)
  qed
qed

lemma object_assign_frame:
  assumes "closed_above n0 h" "fresh n0 target" "fresh n0 source"
    "object_assign h target source = Inr h'"
  shows "take n0 h' = take n0 h \<and> length h' = length h \<and> closed_above n0 h'"
proof (cases "\<exists>a. target = Some (VRef a) \<and> a < length h")
  case False
  then have "h' = h" using assms(4)
    by (auto simp: object_assign_def split: option.splits val.splits if_splits)
  then show ?thesis using assms(1) by simp
next
  case True
  then obtain a where a: "target = Some (VRef a)" "a < length h" by blast
  define ops where "ops = (case source of None \<Rightarrow> [] | Some s \<Rightarrow> own_props h s)"
  define ps where "ps = foldl (\<lambda>ps (k, v). AList.update k v ps) (snd (h ! a)) ops"
  have h': "h' = h[a := (fst (h ! a), ps)]"
    using assms(4) a by (simp add: object_assign_def ps_def ops_def)
  have n: "n0 \<le> a" using assms(2) a by (simp add: fresh_def)
  have "\<forall>p\<in>set ops. fresh n0 (Some (snd p))"
  proof (cases source)
    case None
    then show ?thesis by (simp add: ops_def)
  next
    case (Some s)
    then show ?thesis using own_props_fresh[OF assms(1), of s] assms(3) by (simp add: ops_def)
  qed
  moreover have "\<forall>p\<in>set (snd (h ! a)). fresh n0 (Some (snd p))"
    using assms(1) a n by (simp add: closed_above_def)
  ultimately have "\<forall>p\<in>set ps. fresh n0 (Some (snd p))"
    using set_assign_subset[of "snd (h ! a)" ops] unfolding ps_def by blast
  from closed_above_update[OF assms(1) this] show ?thesis
    using h' n by simp
qed

lemma delete_prop_frame:
  assumes "closed_above n0 h" "fresh n0 base" "delete_prop h base key = Inr h'"
  shows "take n0 h' = take n0 h \<and> length h' = length h \<and> closed_above n0 h'"
proof (cases "\<exists>a. base = Some (VRef a) \<and> a < length h")
  case False
  then have "h' = h" using assms(3)
    by (auto simp: delete_prop_def split: option.splits val.splits if_splits)
  then show ?thesis using assms(1) by simp
next
  case True
  then obtain a where a: "base = Some (VRef a)" "a < length h" by blast
  have h': "h' = h[a := (fst (h ! a), AList.delete key (snd (h ! a)))]"
    using assms(3) a by (simp add: delete_prop_def)
  have n: "n0 \<le> a" using assms(2) a by (simp add: fresh_def)
  have "\<forall>p\<in>set (snd (h ! a)). fresh n0 (Some (snd p))"
    using assms(1) a n by (simp add: closed_above_def)
  then have "\<forall>p\<in>set (AList.delete key (snd (h ! a))). fresh n0 (Some (snd p))"
    using set_delete_subset[of key "snd (h ! a)"] by blast
  from closed_above_update[OF assms(1) this] show ?thesis
    using h' n by simp
qed

lemma visit_frame:
  assumes "closed_above n0 h" "fresh n0 (Some reqs)" "visit reqs platform object h = (e, h')"
  shows "take n0 h' = take n0 h \<and> length h' = length h \<and> closed_above n0 h'"
proof (cases "get h (Some reqs) object")
  case (Inl x)
  then show ?thesis using assms by (simp add: visit_def)
next
  case (Inr entry)
  note fe = get_fresh[OF assms(1,2) Inr]
  show ?thesis
  proof (cases "get h entry ''platform''")
    case (Inl x)
    then show ?thesis using assms Inr by (simp add: visit_def)
  next
    case t: (Inr table)
    note ft = get_fresh[OF assms(1) fe t]
    show ?thesis
    proof (cases "truthy table")
      case False
      then show ?thesis using assms Inr t by (simp add: visit_def)
    next
      case True
      show ?thesis
      proof (cases "get h table platform")
        case (Inl x)
        then show ?thesis using assms Inr t True by (simp add: visit_def)
      next
        case o: (Inr overrides)
        note fo = get_fresh[OF assms(1) ft o]
        show ?thesis
        proof (cases "truthy overrides")
          case False
          show ?thesis
          proof (cases "delete_prop h (Some reqs) object")
            case (Inl x)
            then show ?thesis using assms Inr t True o False by (simp add: visit_def)
          next
            case d: (Inr h1)
            then have "h' = h1" using assms Inr t True o False by (simp add: visit_def)
            then show ?thesis using delete_prop_frame[OF assms(1,2) d] by simp
          qed
        next
          case to: True
          show ?thesis
          proof (cases "object_assign h entry overrides")
            case (Inl x)
            then show ?thesis using assms Inr t True o to by (simp add: visit_def)
          next
            case a: (Inr h1)
            note f1 = object_assign_frame[OF assms(1) fe fo a]
            show ?thesis
            proof (cases "get h1 (Some reqs) object")
              case (Inl x)
              then have "h' = h1" using assms Inr t True o to a by (simp add: visit_def)
              then show ?thesis using f1 by simp
            next
              case g: (Inr entry1)
              have c1: "closed_above n0 h1" using f1 by simp
              note fe1 = get_fresh[OF c1 assms(2) g]
              show ?thesis
              proof (cases "delete_prop h1 entry1 ''platform''")
                case (Inl x)
                then have "h' = h1" using assms Inr t True o to a g by (simp add: visit_def)
                then show ?thesis using f1 by simp
              next
                case d: (Inr h2)
                then have "h' = h2" using assms Inr t True o to a g by (simp add: visit_def)
                then show ?thesis using delete_prop_frame[OF c1 fe1 d] f1 by simp
              qed
            qed
          qed
        qed
      qed
    qed
  qed
qed

lemma for_in_frame:
  "closed_above n0 h \<Longrightarrow> fresh n0 (Some reqs) \<Longrightarrow> for_in reqs platform keys h = (e, h') \<Longrightarrow>
     take n0 h' = take n0 h \<and> length h' = length h \<and> closed_above n0 h'"
proof (induction keys arbitrary: h)
  case Nil
  then show ?case by simp
next
  case (Cons key keys)
  obtain e1 h1 where v: "visit reqs platform key h = (e1, h1)"
    by (cases "visit reqs platform key h")
  note f1 = visit_frame[OF Cons.prems(1,2) v]
  show ?case
  proof (cases e1)
    case (Some x)
    then show ?thesis using Cons.prems(3) v f1 by simp
  next
    case None
    then have "for_in reqs platform keys h1 = (e, h')" using Cons.prems(3) v by simp
    from Cons.IH[OF _ Cons.prems(2) this] f1 show ?thesis by simp
  qed
qed

lemma loadMetadata_input_untouched:
  assumes "loadMetadata h requirements platform = (r, h')"
  shows "take (length h) h' = h"
proof (cases "json_stringify h requirements")
  case None
  then show ?thesis using assms by (simp add: loadMetadata_def)
next
  case (Some tree)
  obtain reqs h1 where p: "json_parse tree h = (reqs, h1)" by (cases "json_parse tree h")
  have c: "closed_above (length h) h" by (auto simp: closed_above_def)
  from json_parse_extends(1)[OF p _ c] obtain cs where
    1: "h1 = h @ cs" "fresh (length h) (Some reqs)" "closed_above (length h) h1" by auto
  obtain e h2 where f: "for_in reqs platform (map fst (own_props h1 requirements)) h1 = (e, h2)"
    by (cases "for_in reqs platform (map fst (own_props h1 requirements)) h1")
  have "h' = h2" using assms Some p f by (auto simp: loadMetadata_def split: option.splits)
  then show ?thesis using for_in_frame[OF 1(3,2) f] 1(1) by simp
qed

section \<open>Reading trees back from the heap\<close>

lemma those_map_Some:
  "those (map f xs) = Some ys \<longleftrightarrow> list_all2 (\<lambda>x y. f x = Some y) xs ys"
proof (induction xs arbitrary: ys)
  case Nil
  then show ?case by auto
next
  case (Cons x xs)
  show ?case
  proof (cases "f x")
    case None
    then show ?thesis by (auto simp: list_all2_Cons1)
  next
    case (Some y)
    then show ?thesis using Cons.IH by (auto simp: list_all2_Cons1 split: option.splits)
  qed
qed

lemma reads_in_frame:
  "reads_in lo hi h v j \<Longrightarrow> agree lo hi h h' \<Longrightarrow> reads_in lo hi h' v j"
  "props_in lo hi h ps js \<Longrightarrow> agree lo hi h h' \<Longrightarrow> props_in lo hi h' ps js"
proof (induction lo hi h v j and lo hi h ps js rule: reads_in_props_in.induct)
  case (5 lo hi h v k js)
  from "5.prems"(1) obtain a where a: "v = VRef a" "lo \<le> a" "a < hi" "a < length h" "fst (h ! a) = k"
    "props_in lo a h (AList.clearjunk (snd (h ! a))) js"
    by (auto split: val.splits)
  have e: "a < length h'" "h' ! a = h ! a" using "5.prems"(2) a by (auto simp: agree_def)
  have "agree lo a h h'" using "5.prems"(2) a by (auto simp: agree_def)
  from "5.IH"[OF a(1) a(6) this] show ?case using a e by simp
next
  case (7 lo hi h ps key j js)
  then show ?case by (auto split: list.splits)
qed auto

lemma reads_in_widen:
  "reads_in lo hi h v j \<Longrightarrow> lo' \<le> lo \<Longrightarrow> hi \<le> hi' \<Longrightarrow> reads_in lo' hi' h v j"
  "props_in lo hi h ps js \<Longrightarrow> lo' \<le> lo \<Longrightarrow> hi \<le> hi' \<Longrightarrow> props_in lo' hi' h ps js"
proof (induction lo hi h v j and lo hi h ps js arbitrary: lo' hi' and lo' hi' rule: reads_in_props_in.induct)
  case (5 lo hi h v k js)
  from "5.prems"(1) obtain a where a: "v = VRef a" "lo \<le> a" "a < hi" "a < length h" "fst (h ! a) = k"
    "props_in lo a h (AList.clearjunk (snd (h ! a))) js"
    by (auto split: val.splits)
  from "5.IH"[OF a(1) a(6) "5.prems"(2), of a] show ?case using a "5.prems"(2,3) by simp
next
  case (7 lo hi h ps key j js)
  then show ?case by (auto split: list.splits)
qed auto

lemma segs_props_in:
  "segs lo hi h ps js \<Longrightarrow> props_in lo hi h ps js \<and> lo \<le> hi \<and> map fst ps = map fst js"
proof (induction js arbitrary: lo ps)
  case Nil
  then show ?case by simp
next
  case (Cons kj js)
  obtain key j where kj: "kj = (key, j)" by (cases kj)
  from Cons.prems kj obtain p ps' mid where
    p: "ps = p # ps'" "fst p = key" "lo \<le> mid" "reads_in lo mid h (snd p) j" "segs mid hi h ps' js"
    by (auto split: list.splits)
  from Cons.IH[OF p(5)] have ih: "props_in mid hi h ps' js" "mid \<le> hi" "map fst ps' = map fst js"
    by auto
  have "reads_in lo hi h (snd p) j" using reads_in_widen(1)[OF p(4) _ ih(2)] by simp
  moreover have "props_in lo hi h ps' js" using reads_in_widen(2)[OF ih(1) p(3)] by simp
  ultimately show ?case using p ih kj by simp
qed

lemma segs_frame: "segs lo hi h ps js \<Longrightarrow> agree lo hi h h' \<Longrightarrow> segs lo hi h' ps js"
proof (induction js arbitrary: lo ps)
  case Nil
  then show ?case by simp
next
  case (Cons kj js)
  obtain key j where kj: "kj = (key, j)" by (cases kj)
  from Cons.prems kj obtain p ps' mid where
    p: "ps = p # ps'" "fst p = key" "lo \<le> mid" "reads_in lo mid h (snd p) j" "segs mid hi h ps' js"
    by (auto split: list.splits)
  have mh: "mid \<le> hi" using segs_props_in[OF p(5)] by simp
  have "agree lo mid h h'" "agree mid hi h h'"
    using Cons.prems(2) p(3) mh by (auto simp: agree_def)
  then have "reads_in lo mid h' (snd p) j" "segs mid hi h' ps' js"
    using reads_in_frame(1)[OF p(4)] Cons.IH[OF p(5)] by auto
  then show ?case using p kj by auto
qed

lemma segs_widen: "segs lo hi h ps js \<Longrightarrow> lo' \<le> lo \<Longrightarrow> hi \<le> hi' \<Longrightarrow> segs lo' hi' h ps js"
proof (induction js arbitrary: lo lo' ps)
  case Nil
  then show ?case by simp
next
  case (Cons kj js)
  obtain key j where kj: "kj = (key, j)" by (cases kj)
  from Cons.prems kj obtain p ps' mid where
    p: "ps = p # ps'" "fst p = key" "lo \<le> mid" "reads_in lo mid h (snd p) j" "segs mid hi h ps' js"
    by (auto split: list.splits)
  have "reads_in lo' mid h (snd p) j" using reads_in_widen(1)[OF p(4) Cons.prems(2)] by simp
  moreover have "segs mid hi' h ps' js" using Cons.IH[OF p(5) _ Cons.prems(3)] by simp
  ultimately show ?case using p kj Cons.prems(2) by (auto intro!: exI[of _ mid])
qed

lemma reads_in_stringify:
  "reads_in lo hi h v j \<Longrightarrow> hi \<le> n \<Longrightarrow> stringify n h v = Some j"
  "props_in lo hi h ps js \<Longrightarrow> hi \<le> n \<Longrightarrow>
     those (map (\<lambda>(k, v). map_option (Pair k) (stringify n h v)) ps) = Some js"
proof (induction lo hi h v j and lo hi h ps js arbitrary: n and n rule: reads_in_props_in.induct)
  case (5 lo hi h v k js)
  from "5.prems"(1) obtain a where a: "v = VRef a" "lo \<le> a" "a < hi" "a < length h" "fst (h ! a) = k"
    "props_in lo a h (AList.clearjunk (snd (h ! a))) js"
    by (auto split: val.splits)
  obtain m where m: "n = Suc m" "a \<le> m" using a(3) "5.prems"(2) by (cases n) auto
  from "5.IH"[OF a(1) a(6) m(2)] show ?case using a m by simp
next
  case (7 lo hi h ps key j js)
  from "7.prems"(1) obtain p ps' where
    p: "ps = p # ps'" "fst p = key" "reads_in lo hi h (snd p) j" "props_in lo hi h ps' js"
    by (auto split: list.splits)
  from "7.IH"(1)[OF p(1) p(3) "7.prems"(2)] "7.IH"(2)[OF p(1) p(4) "7.prems"(2)]
  show ?case using p by (cases p) (auto split: option.splits)
qed auto

lemma wf_props_iff: "wf_props js \<longleftrightarrow> distinct (map fst js) \<and> (\<forall>p\<in>set js. wf_json (snd p))"
  by (induction js) force+

lemma stringify_children:
  assumes "those (map (\<lambda>(k, v). map_option (Pair k) (stringify n h v)) ps) = Some js"
  shows "list_all2 (\<lambda>p q. fst q = fst p \<and> stringify n h (snd p) = Some (snd q)) ps js"
proof -
  have "list_all2 (\<lambda>p q. (case p of (k, v) \<Rightarrow> map_option (Pair k) (stringify n h v)) = Some q) ps js"
    using assms by (simp add: those_map_Some)
  then show ?thesis
    by (rule list_all2_mono) (auto split: prod.splits)
qed

lemma stringify_from_children:
  assumes "list_all2 (\<lambda>p q. fst q = fst p \<and> stringify n h (snd p) = Some (snd q)) ps js"
  shows "those (map (\<lambda>(k, v). map_option (Pair k) (stringify n h v)) ps) = Some js"
proof -
  have "list_all2 (\<lambda>p q. (case p of (k, v) \<Rightarrow> map_option (Pair k) (stringify n h v)) = Some q) ps js"
    using assms by (rule list_all2_mono) (auto split: prod.splits)
  then show ?thesis by (simp add: those_map_Some)
qed

lemma list_all2_keys:
  "list_all2 (\<lambda>p q. fst q = fst p \<and> R p q) ps js \<Longrightarrow> map fst js = map fst ps"
  by (induction ps js rule: list_all2_induct) auto

lemma stringify_wf:
  "stringify n h v = Some j \<Longrightarrow> wf_json j \<and> map fst (props_json j) = map fst (own_props h v)"
proof (induction n arbitrary: v j)
  case 0
  then show ?case
    by (cases v) (auto simp: props_json_def own_props_def index_props_def)
next
  case (Suc n)
  show ?case
  proof (cases v)
    case (VRef a)
    from Suc.prems VRef have a: "a < length h" by (auto split: if_splits)
    from Suc.prems VRef a obtain js where
      js: "j = JNode (fst (h ! a)) js"
          "those (map (\<lambda>(k, v). map_option (Pair k) (stringify n h v)) (AList.clearjunk (snd (h ! a)))) = Some js"
      by auto
    note c = stringify_children[OF js(2)]
    have k: "map fst js = map fst (AList.clearjunk (snd (h ! a)))"
      using list_all2_keys[OF c] .
    then have d: "distinct (map fst js)" by simp
    have "\<forall>q\<in>set js. wf_json (snd q)"
    proof
      fix q assume "q \<in> set js"
      then obtain p where "stringify n h (snd p) = Some (snd q)"
        using c by (auto simp: list_all2_conv_all_nth in_set_conv_nth)
      then show "wf_json (snd q)" using Suc.IH by blast
    qed
    then show ?thesis using js(1) d k VRef a
      by (simp add: wf_props_iff props_json_def own_props_def)
  qed (use Suc.prems in \<open>auto simp: props_json_def own_props_def index_props_def\<close>)
qed

lemma stringify_mono:
  "stringify n h v = Some j \<Longrightarrow> n \<le> m \<Longrightarrow> stringify m (h @ cs) v = Some j"
proof (induction n arbitrary: m v j)
  case 0
  then show ?case by (cases v) auto
next
  case (Suc n)
  show ?case
  proof (cases v)
    case (VRef a)
    from Suc.prems VRef have a: "a < length h" by (auto split: if_splits)
    from Suc.prems VRef a obtain js where
      js: "j = JNode (fst (h ! a)) js"
          "those (map (\<lambda>(k, v). map_option (Pair k) (stringify n h v)) (AList.clearjunk (snd (h ! a)))) = Some js"
      by auto
    obtain m' where m: "m = Suc m'" "n \<le> m'" using Suc.prems(2) by (cases m) auto
    have "list_all2 (\<lambda>p q. fst q = fst p \<and> stringify m' (h @ cs) (snd p) = Some (snd q))
            (AList.clearjunk (snd (h ! a))) js"
      using stringify_children[OF js(2)]
      by (rule list_all2_mono) (use Suc.IH m(2) in auto)
    from stringify_from_children[OF this] show ?thesis
      using VRef a js(1) m(1) by (simp add: nth_append)
  qed (use Suc.prems in auto)
qed

text \<open>
  The heap's length is enough fuel: a value that can be written with any fuel is written
  with that of \<open>JSON.stringify\<close>. The cells that need exactly \<open>1\<close>, \<open>2\<close>, ... nested
  objects are distinct, so the least fuel is no more than the number of cells.
\<close>

lemma those_map_None:
  "those (map f xs) = None \<Longrightarrow> \<exists>x\<in>set xs. f x = None"
  by (induction xs) (auto split: option.splits)

lemma stringify_level:
  "stringify (Suc n) h v = Some j \<Longrightarrow> stringify n h v = None \<Longrightarrow> i \<le> n \<Longrightarrow>
     \<exists>b<length h. stringify (Suc i) h (VRef b) \<noteq> None \<and> stringify i h (VRef b) = None"
proof (induction n arbitrary: v j)
  case 0
  then obtain a where v: "v = VRef a" by (cases v) auto
  from 0(1) v have "a < length h" by (auto split: if_splits)
  then show ?case using 0 v by auto
next
  case (Suc n)
  then obtain a where v: "v = VRef a" by (cases v) auto
  from Suc.prems(1) v have a: "a < length h" by (auto split: if_splits)
  show ?case
  proof (cases "i = Suc n")
    case True
    then show ?thesis using Suc.prems v a by auto
  next
    case False
    then have i: "i \<le> n" using Suc.prems(3) by simp
    from Suc.prems(1) v a obtain js where
      js: "those (map (\<lambda>(k, v). map_option (Pair k) (stringify (Suc n) h v))
                      (AList.clearjunk (snd (h ! a)))) = Some js"
      by auto
    from Suc.prems(2) v a have
      "those (map (\<lambda>(k, v). map_option (Pair k) (stringify n h v))
                  (AList.clearjunk (snd (h ! a)))) = None"
      by simp
    from those_map_None[OF this] obtain p where
      p: "p \<in> set (AList.clearjunk (snd (h ! a)))" "stringify n h (snd p) = None"
      by (auto split: prod.splits)
    from stringify_children[OF js] p(1) obtain q where "stringify (Suc n) h (snd p) = Some (snd q)"
      by (auto simp: list_all2_conv_all_nth in_set_conv_nth)
    from Suc.IH[OF this p(2) i] show ?thesis .
  qed
qed

lemma stringify_least_fuel:
  assumes "stringify (Suc n) h v = Some j" "stringify n h v = None"
  shows "Suc n \<le> length h"
proof -
  define f where "f i = (SOME b. b < length h \<and> stringify (Suc i) h (VRef b) \<noteq> None \<and>
                                 stringify i h (VRef b) = None)" for i
  have f: "f i < length h \<and> stringify (Suc i) h (VRef (f i)) \<noteq> None \<and>
           stringify i h (VRef (f i)) = None" if "i \<le> n" for i
    unfolding f_def using stringify_level[OF assms that] by (rule someI_ex)
  have "inj_on f {..n}"
  proof (rule inj_onI)
    fix x y assume xy: "x \<in> {..n}" "y \<in> {..n}" "f x = f y"
    have ne: False if "x < y" "x \<le> n" "y \<le> n" "f x = f y" for x y
    proof -
      from f[OF that(2)] obtain t where "stringify (Suc x) h (VRef (f x)) = Some t" by auto
      from stringify_mono[OF this, of y "[]"] that(1) have "stringify y h (VRef (f x)) = Some t"
        by simp
      then show False using f[OF that(3)] that(4) by simp
    qed
    show "x = y" using ne[of x y] ne[of y x] xy by (cases x y rule: linorder_cases) auto
  qed
  moreover have "f ` {..n} \<subseteq> {..<length h}" using f by auto
  ultimately have "card {..n} \<le> card {..<length h}" by (intro card_inj_on_le) auto
  then show ?thesis by simp
qed

lemma stringify_fuel:
  assumes "stringify n h v = Some j"
  shows "json_stringify h v = Some j"
proof -
  define m where "m = (LEAST k. stringify k h v \<noteq> None)"
  have ex: "stringify n h v \<noteq> None" using assms by simp
  have m: "stringify m h v \<noteq> None" unfolding m_def using ex by (rule LeastI)
  have mn: "m \<le> n" unfolding m_def using ex by (rule Least_le)
  from m obtain t where t: "stringify m h v = Some t" by auto
  from stringify_mono[OF t mn, of "[]"] assms have tj: "t = j" by simp
  have "m \<le> length h"
  proof (cases m)
    case 0
    then show ?thesis by simp
  next
    case (Suc k)
    have "stringify k h v = None"
    proof (rule ccontr)
      assume "stringify k h v \<noteq> None"
      then have "m \<le> k" unfolding m_def by (rule Least_le)
      then show False using Suc by simp
    qed
    from stringify_least_fuel[OF t[unfolded Suc] this] show ?thesis using Suc by simp
  qed
  from stringify_mono[OF t this, of "[]"] show ?thesis using tj by (simp add: json_stringify_def)
qed

lemma agree_append: "hi \<le> length h \<Longrightarrow> agree lo hi h (h @ cs)"
  by (simp add: agree_def nth_append)

lemma json_parse_reads:
  "json_parse j h = (v, h1) \<Longrightarrow> wf_json j \<Longrightarrow>
     reads_in (length h) (length h1) h1 v j \<and> (\<exists>cs. h1 = h @ cs)"
  "parse_props js h = (ps, h1) \<Longrightarrow> wf_props js \<Longrightarrow>
     segs (length h) (length h1) h1 ps js \<and> (\<exists>cs. h1 = h @ cs)"
proof (induction j h and js h arbitrary: v h1 and ps h1 rule: json_parse_parse_props.induct)
  case (5 k js h)
  obtain ps h' where p: "parse_props js h = (ps, h')" by (cases "parse_props js h")
  from "5.IH"[OF p] "5.prems"(2) obtain cs where
    s: "segs (length h) (length h') h' ps js" and cs: "h' = h @ cs" by auto
  have v: "v = VRef (length h')" "h1 = h' @ [(k, ps)]" using "5.prems"(1) p by auto
  note pi = segs_props_in[OF s]
  have "distinct (map fst ps)" using pi "5.prems"(2) by (simp add: wf_props_iff)
  then have cj: "AList.clearjunk ps = ps" by simp
  have "props_in (length h) (length h') h1 ps js"
    using reads_in_frame(2)[of "length h" "length h'" h' ps js h1] pi agree_append[of "length h'" h']
    by (simp add: v)
  then show ?case using v cs pi by (auto simp: cj)
next
  case (7 key j js h)
  obtain v1 h2 where j: "json_parse j h = (v1, h2)" by (cases "json_parse j h")
  obtain ps2 h3 where p: "parse_props js h2 = (ps2, h3)" by (cases "parse_props js h2")
  from "7.IH"(1)[OF j] "7.prems"(2) obtain cs where
    1: "reads_in (length h) (length h2) h2 v1 j" "h2 = h @ cs" by auto
  from "7.IH"(2)[OF j[symmetric] p] "7.prems"(2) obtain cs' where
    2: "segs (length h2) (length h3) h3 ps2 js" "h3 = h2 @ cs'" by auto
  have r: "reads_in (length h) (length h2) h3 v1 j"
    using reads_in_frame(1)[OF 1(1), of h3] agree_append[of "length h2" h2] 2(2) by simp
  have e: "ps = (key, v1) # ps2" "h1 = h3" using "7.prems"(1) j p by auto
  have "length h \<le> length h2" using 1(2) by simp
  then have "segs (length h) (length h1) h1 ps ((key, j) # js)"
    using e r 2(1) by (auto intro!: exI[of _ "length h2"])
  then show ?case using e 2(2) 1(2) by auto
qed auto

lemma props_in_list_all2:
  "props_in lo hi h ps js \<longleftrightarrow>
     list_all2 (\<lambda>p q. fst p = fst q \<and> reads_in lo hi h (snd p) (snd q)) ps js"
proof (induction js arbitrary: ps)
  case Nil
  then show ?case by auto
next
  case (Cons q js)
  obtain key j where q: "q = (key, j)" by (cases q)
  show ?case using Cons.IH q by (cases ps) auto
qed

lemma rel_update:
  "list_all2 (\<lambda>p q. fst p = fst q \<and> R (snd p) (snd q)) ps js \<Longrightarrow> R v j \<Longrightarrow>
     list_all2 (\<lambda>p q. fst p = fst q \<and> R (snd p) (snd q)) (AList.update k v ps) (AList.update k j js)"
  by (induction ps js rule: list_all2_induct) auto

lemma rel_delete:
  "list_all2 (\<lambda>p q. fst p = fst q \<and> R (snd p) (snd q)) ps js \<Longrightarrow>
     list_all2 (\<lambda>p q. fst p = fst q \<and> R (snd p) (snd q)) (AList.delete k ps) (AList.delete k js)"
  by (induction ps js rule: list_all2_induct) (auto simp: AList.delete_eq)

lemma rel_map_of:
  "list_all2 (\<lambda>p q. fst p = fst q \<and> R (snd p) (snd q)) ps js \<Longrightarrow>
     rel_option R (map_of ps k) (map_of js k)"
  by (induction ps js rule: list_all2_induct) auto

lemma rel_assign:
  "list_all2 (\<lambda>p q. fst p = fst q \<and> R (snd p) (snd q)) ops tops \<Longrightarrow>
   list_all2 (\<lambda>p q. fst p = fst q \<and> R (snd p) (snd q)) ps js \<Longrightarrow>
     list_all2 (\<lambda>p q. fst p = fst q \<and> R (snd p) (snd q))
       (foldl (\<lambda>ps (k, v). AList.update k v ps) ps ops)
       (foldl (\<lambda>ps (k, v). AList.update k v ps) js tops)"
proof (induction ops tops arbitrary: ps js rule: list_all2_induct)
  case Nil
  then show ?case by simp
next
  case (Cons p ops q tops)
  obtain k v where p: "p = (k, v)" by (cases p)
  obtain k' j where q: "q = (k', j)" by (cases q)
  have "list_all2 (\<lambda>p q. fst p = fst q \<and> R (snd p) (snd q)) (AList.update k v ps) (AList.update k j js)"
    using rel_update[OF Cons.prems, of v j k] Cons.hyps(1) p q by simp
  from Cons.IH[OF this] show ?case using p q Cons.hyps(1) by simp
qed

lemma clearjunk_assign:
  "AList.clearjunk (foldl (\<lambda>ps (k, v). AList.update k v ps) ps ops) =
     foldl (\<lambda>ps (k, v). AList.update k v ps) (AList.clearjunk ps) ops"
proof (induction ops arbitrary: ps)
  case Nil
  then show ?case by simp
next
  case (Cons p ops)
  obtain k v where p: "p = (k, v)" by (cases p)
  show ?case using Cons.IH[of "AList.update k v ps"] p by (simp add: clearjunk_update)
qed

lemma props_in_keys: "props_in lo hi h ps js \<Longrightarrow> map fst ps = map fst js"
  unfolding props_in_list_all2 by (induction ps js rule: list_all2_induct) auto

lemma truthy_reads: "reads_in lo hi h v j \<Longrightarrow> truthy (Some v) = truthy_json (Some j)"
  by (cases j; cases v) (auto simp: truthy_def truthy_json_def)

lemma truthy_rel:
  "rel_option (reads_in lo hi h) x y \<Longrightarrow> truthy x = truthy_json y"
  by (cases x; cases y) (auto simp: truthy_reads, auto simp: truthy_def truthy_json_def)

lemma own_props_reads:
  assumes "reads_in lo hi h v j"
  shows "props_in lo (case v of VRef a \<Rightarrow> a | _ \<Rightarrow> hi) h (own_props h v) (props_json j)"
proof (cases j)
  case (JNode k js)
  from assms JNode obtain a where a: "v = VRef a" "a < length h"
    "props_in lo a h (AList.clearjunk (snd (h ! a))) js"
    by (auto split: val.splits)
  have "distinct (map fst js)" using props_in_keys[OF a(3)] by (metis distinct_clearjunk)
  then show ?thesis using a JNode by (simp add: own_props_def props_json_def)
next
  case (JStr s)
  then have v: "v = VStr s" using assms by simp
  have "list_all2 (\<lambda>p q. fst p = fst q \<and> reads_in lo hi h (snd p) (snd q))
          (index_props VStr s) (index_props JStr s)"
    by (simp add: index_props_def list_all2_conv_all_nth)
  then show ?thesis using v JStr by (simp add: own_props_def props_json_def props_in_list_all2)
qed (use assms in \<open>auto simp: own_props_def props_json_def\<close>)

lemma get_reads:
  assumes "reads_in lo hi h v j" "j \<noteq> JNull"
  shows "get h (Some v) key = Inr (map_of (own_props h v) key) \<and>
         rel_option (reads_in lo (case v of VRef a \<Rightarrow> a | _ \<Rightarrow> hi) h)
           (map_of (own_props h v) key) (map_of (props_json j) key)"
proof -
  have "v \<noteq> VNull" using assms by (cases j) auto
  then have "get h (Some v) key = Inr (map_of (own_props h v) key)"
    by (cases v) (auto simp: get_def)
  moreover have "rel_option (reads_in lo (case v of VRef a \<Rightarrow> a | _ \<Rightarrow> hi) h)
           (map_of (own_props h v) key) (map_of (props_json j) key)"
    using own_props_reads[OF assms(1)] unfolding props_in_list_all2 by (rule rel_map_of)
  ultimately show ?thesis by blast
qed

section \<open>The loop of loadMetadata\<close>

lemma reads_in_ref_node:
  "reads_in lo hi h v j \<Longrightarrow> (\<exists>a. v = VRef a) \<longleftrightarrow> (\<exists>k js. j = JNode k js)"
  by (cases j; cases v) auto

lemma rel_option_truthy:
  assumes "rel_option (reads_in lo hi h) x y" "truthy x"
  obtains v j where "x = Some v" "y = Some j" "reads_in lo hi h v j" "j \<noteq> JNull"
proof -
  from assms obtain v j where vj: "x = Some v" "y = Some j" "reads_in lo hi h v j"
    by (cases x; cases y) (auto simp: truthy_def)
  have "j \<noteq> JNull" using assms(2) vj by (auto simp: truthy_def)
  with vj that show ?thesis by blast
qed

lemma rel_option_widen:
  "rel_option (reads_in lo hi h) x y \<Longrightarrow> hi \<le> hi' \<Longrightarrow> rel_option (reads_in lo hi' h) x y"
  by (cases x; cases y) (auto intro: reads_in_widen(1))

lemma own_props_root:
  "r < length h \<Longrightarrow> h ! r = (kr, rps) \<Longrightarrow> distinct (map fst rps) \<Longrightarrow> own_props h (VRef r) = rps"
  by (simp add: own_props_def)

lemma visit_entry:
  assumes "r < length h" "h ! r = (kr, rps)" "distinct (map fst rps)" "map_of rps key = Some v"
    and "reads_in lo hi h v t" "hi \<le> r" "t \<noteq> JNull"
  shows "\<exists>h'. visit (VRef r) platform key h = (None, h') \<and> length h' = length h \<and>
           (case merged_entry platform t of
              Some t' \<Rightarrow> h' ! r = (kr, rps) \<and> reads_in lo hi h' v t' \<and>
                         (\<forall>a. \<not> (lo \<le> a \<and> a < hi) \<longrightarrow> h' ! a = h ! a)
            | None \<Rightarrow> h' = h[r := (kr, AList.delete key rps)])"
proof -
  define b where "b = (case v of VRef a \<Rightarrow> a | _ \<Rightarrow> hi)"
  define table where "table = map_of (own_props h v) ''platform''"
  define ttable where "ttable = map_of (props_json t) ''platform''"
  have g0: "get h (Some (VRef r)) key = Inr (Some v)"
    using assms(1-4) by (simp add: get_def own_props_root)
  have g1: "get h (Some v) ''platform'' = Inr table" "rel_option (reads_in lo b h) table ttable"
    using get_reads[OF assms(5,7), of "''platform''"] by (simp_all add: table_def ttable_def b_def)
  have tr: "truthy table = truthy_json ttable" using truthy_rel[OF g1(2)] .
  have bhi: "b \<le> hi" using assms(5) by (cases t; cases v) (auto simp: b_def)
  show ?thesis
  proof (cases "truthy table")
    case False
    then have "visit (VRef r) platform key h = (None, h)" using g0 g1(1) by (simp add: visit_def)
    moreover have "merged_entry platform t = Some t"
      using False tr by (simp add: merged_entry_def ttable_def)
    ultimately show ?thesis using assms(2,5) by simp
  next
    case True
    from rel_option_truthy[OF g1(2) True] obtain vt tt where
      vt: "table = Some vt" "ttable = Some tt" "reads_in lo b h vt tt" "tt \<noteq> JNull" .
    define ov where "ov = map_of (own_props h vt) platform"
    define tov where "tov = map_of (props_json tt) platform"
    have g2: "get h (Some vt) platform = Inr ov"
      using get_reads[OF vt(3,4), of platform] by (simp add: ov_def)
    have "rel_option (reads_in lo (case vt of VRef a \<Rightarrow> a | _ \<Rightarrow> b) h) ov tov"
      using get_reads[OF vt(3,4), of platform] by (simp add: ov_def tov_def)
    moreover have "(case vt of VRef a \<Rightarrow> a | _ \<Rightarrow> b) \<le> b"
      using vt(3) by (cases tt; cases vt) auto
    ultimately have ro: "rel_option (reads_in lo b h) ov tov"
      by (rule rel_option_widen)
    have tro: "truthy ov = truthy_json tov" using truthy_rel[OF ro] .
    show ?thesis
    proof (cases "truthy ov")
      case False
      then have "visit (VRef r) platform key h = (None, h[r := (kr, AList.delete key rps)])"
        using g0 g1(1) True vt(1) g2 assms(1,2) by (simp add: visit_def delete_prop_def)
      moreover have "merged_entry platform t = None"
        using False tro True tr vt(2)
        by (simp add: merged_entry_def ttable_def[symmetric] tov_def[symmetric])
      ultimately show ?thesis by simp
    next
      case to: True
      from rel_option_truthy[OF ro to] obtain vo tj where
        vo: "ov = Some vo" "tov = Some tj" "reads_in lo b h vo tj" "tj \<noteq> JNull" .
      have vn: "v \<noteq> VNull" using assms(5,7) by (cases t) auto
      have mt: "map_of (props_json t) ''platform'' = Some tt" using vt(2) by (simp add: ttable_def)
      have mo: "map_of (props_json tt) platform = Some tj" using vo(2) by (simp add: tov_def)
      have tt: "truthy_json (Some tt)" "truthy_json (Some tj)"
        using True tr vt(2) to tro vo(2) by simp_all
      have me0: "merged_entry platform t =
                   Some (case t of
                           JNode k ps \<Rightarrow>
                             JNode k (AList.delete ''platform''
                               (foldl (\<lambda>ps (key, v). AList.update key v ps) ps (props_json tj)))
                         | _ \<Rightarrow> t)"
        by (simp add: merged_entry_def Let_def mt mo tt split: json.splits)
      show ?thesis
      proof (cases v)
        case (VRef e)
        from assms(5) VRef obtain ke tps where t: "t = JNode ke tps"
          using reads_in_ref_node[OF assms(5)] by auto
        define cps where "cps = snd (h ! e)"
        have e: "lo \<le> e" "e < hi" "e < length h" "fst (h ! e) = ke"
          "props_in lo e h (AList.clearjunk cps) tps"
          using assms(5) VRef t by (auto simp: cps_def)
        have be: "b = e" using VRef by (simp add: b_def)
        define ops where "ops = own_props h vo"
        define tops where "tops = props_json tj"
        have po: "props_in lo e h ops tops"
        proof -
          have vo3: "reads_in lo e h vo tj" using vo(3) be by simp
          have "props_in lo (case vo of VRef a \<Rightarrow> a | _ \<Rightarrow> e) h ops tops"
            using own_props_reads[OF vo3] by (simp add: ops_def tops_def)
          moreover have "(case vo of VRef a \<Rightarrow> a | _ \<Rightarrow> e) \<le> e"
            using vo3 by (cases tj; cases vo) auto
          ultimately show ?thesis using reads_in_widen(2) by blast
        qed
        define ps1 where "ps1 = foldl (\<lambda>ps (k, v). AList.update k v ps) cps ops"
        define h1 where "h1 = h[e := (ke, ps1)]"
        define h2 where "h2 = h1[e := (ke, AList.delete ''platform'' ps1)]"
        have re: "r \<noteq> e" using e(2) assms(6) by simp
        have a1: "object_assign h (Some v) ov = Inr h1"
          using VRef e vo(1) by (simp add: object_assign_def h1_def ps1_def cps_def ops_def)
        have g3: "get h1 (Some (VRef r)) key = Inr (Some v)"
          using assms(1-4) re by (simp add: get_def own_props_def h1_def)
        have d1: "delete_prop h1 (Some v) ''platform'' = Inr h2"
          using VRef e by (simp add: delete_prop_def h1_def h2_def)
        have vis: "visit (VRef r) platform key h = (None, h2)"
          using g0 g1(1) True vt(1) g2 to a1 g3 d1 by (simp add: visit_def)
        have me: "merged_entry platform t =
                    Some (JNode ke (AList.delete ''platform''
                            (foldl (\<lambda>ps (key, v). AList.update key v ps) tps tops)))"
          using me0 t by (simp add: tops_def)
        have h2e: "h2 = h[e := (ke, AList.delete ''platform'' ps1)]"
          by (simp add: h2_def h1_def)
        have ag: "agree lo e h h2" by (simp add: agree_def h2e)
        have "list_all2 (\<lambda>p q. fst p = fst q \<and> reads_in lo e h (snd p) (snd q))
                (AList.delete ''platform'' (foldl (\<lambda>ps (k, v). AList.update k v ps) (AList.clearjunk cps) ops))
                (AList.delete ''platform'' (foldl (\<lambda>ps (k, v). AList.update k v ps) tps tops))"
          using rel_delete[OF rel_assign[OF po[unfolded props_in_list_all2] e(5)[unfolded props_in_list_all2]]] .
        then have "props_in lo e h (AList.clearjunk (AList.delete ''platform'' ps1))
                (AList.delete ''platform'' (foldl (\<lambda>ps (k, v). AList.update k v ps) tps tops))"
          by (simp add: props_in_list_all2 clearjunk_delete clearjunk_assign ps1_def)
        from reads_in_frame(2)[OF this ag]
        have "reads_in lo hi h2 v (JNode ke (AList.delete ''platform''
                            (foldl (\<lambda>ps (key, v). AList.update key v ps) tps tops)))"
          using VRef e by (simp add: h2e)
        moreover have "h2 ! r = (kr, rps)" using re assms(2) by (simp add: h2e)
        moreover have "\<forall>a. \<not> (lo \<le> a \<and> a < hi) \<longrightarrow> h2 ! a = h ! a"
          using e by (auto simp: h2e)
        moreover have "length h2 = length h" by (simp add: h2e)
        ultimately show ?thesis using vis me by simp
      next
        case VNull
        then show ?thesis using vn by simp
      next
        case (VBool x)
        then have nn: "\<nexists>k js. t = JNode k js" using reads_in_ref_node[OF assms(5)] by simp
        have "visit (VRef r) platform key h = (None, h)"
          using VBool g0 g1(1) True vt(1) g2 to vo(1)
          by (simp add: visit_def object_assign_def delete_prop_def)
        moreover have "merged_entry platform t = Some t"
          using me0 nn by (cases t) simp_all
        ultimately show ?thesis using assms(2,5) by simp
      next
        case (VNum x)
        then have nn: "\<nexists>k js. t = JNode k js" using reads_in_ref_node[OF assms(5)] by simp
        have "visit (VRef r) platform key h = (None, h)"
          using VNum g0 g1(1) True vt(1) g2 to vo(1)
          by (simp add: visit_def object_assign_def delete_prop_def)
        moreover have "merged_entry platform t = Some t"
          using me0 nn by (cases t) simp_all
        ultimately show ?thesis using assms(2,5) by simp
      next
        case (VStr x)
        then have nn: "\<nexists>k js. t = JNode k js" using reads_in_ref_node[OF assms(5)] by simp
        have "visit (VRef r) platform key h = (None, h)"
          using VStr g0 g1(1) True vt(1) g2 to vo(1)
          by (simp add: visit_def object_assign_def delete_prop_def)
        moreover have "merged_entry platform t = Some t"
          using me0 nn by (cases t) simp_all
        ultimately show ?thesis using assms(2,5) by simp
      qed
    qed
  qed
qed

lemma segs_append:
  "segs lo mid h D Dt \<Longrightarrow> reads_in mid mid' h v t \<Longrightarrow> mid \<le> mid' \<Longrightarrow>
     segs lo mid' h (D @ [(k, v)]) (Dt @ [(k, t)])"
proof (induction Dt arbitrary: lo D)
  case Nil
  then have "D = []" "lo \<le> mid" by simp_all
  then show ?case
    using Nil.prems(2,3) reads_in_widen(1)[OF Nil.prems(2), of lo mid']
    by (auto intro!: exI[of _ mid'])
next
  case (Cons q Dt)
  obtain key j where q: "q = (key, j)" by (cases q)
  from Cons.prems(1) q obtain p D' m where
    p: "D = p # D'" "fst p = key" "lo \<le> m" "reads_in lo m h (snd p) j" "segs m mid h D' Dt"
    by (auto split: list.splits)
  from Cons.IH[OF p(5) Cons.prems(2,3)] show ?case using p q by (auto intro!: exI[of _ m])
qed

lemma delete_head_of_rest:
  assumes "distinct (map fst (D @ p # T))"
  shows "AList.delete (fst p) (D @ p # T) = D @ T"
proof -
  have "fst p \<notin> fst ` set D \<Longrightarrow> fst p \<notin> fst ` set T \<Longrightarrow>
          AList.delete (fst p) (D @ p # T) = D @ T"
    by (induction D) auto
  then show ?thesis using assms by auto
qed

lemma for_in_entries:
  assumes "r < length h" "h ! r = (kr, D @ T)" "distinct (map fst (D @ T))"
    and "segs lo mid h D Dt" "segs mid r h T Tt" "\<forall>q\<in>set Tt. snd q \<noteq> JNull"
  shows "\<exists>h' T'. for_in (VRef r) platform (map fst T) h = (None, h') \<and> length h' = length h \<and>
           h' ! r = (kr, D @ T') \<and> distinct (map fst (D @ T')) \<and>
           segs lo r h' (D @ T')
             (Dt @ List.map_filter (\<lambda>(key, e). map_option (Pair key) (merged_entry platform e)) Tt)"
  using assms
proof (induction Tt arbitrary: h D Dt T mid)
  case Nil
  then have T: "T = []" "mid \<le> r" by simp_all
  have "segs lo r h D Dt" using segs_widen[OF Nil.prems(4) _ T(2)] by simp
  then show ?case using Nil.prems(2,3) T by (simp add: List.map_filter_simps)
next
  case (Cons q Tt)
  obtain key t where q: "q = (key, t)" by (cases q)
  from Cons.prems(5) q obtain p T1 mid' where
    p: "T = p # T1" "fst p = key" "mid \<le> mid'" "reads_in mid mid' h (snd p) t" "segs mid' r h T1 Tt"
    by (auto split: list.splits)
  have mr: "mid' \<le> r" using segs_props_in[OF p(5)] by simp
  have tn: "t \<noteq> JNull" using Cons.prems(6) q by simp
  have "key \<notin> fst ` set D" using Cons.prems(3) p(1,2) by auto
  then have "map_of D key = None" by (simp add: map_of_eq_None_iff)
  then have mo: "map_of (D @ T) key = Some (snd p)"
    using p(1,2) by (cases p) (simp add: map_add_def)
  from visit_entry[OF Cons.prems(1,2,3) mo p(4) mr tn, of platform] obtain h1 where
    v: "visit (VRef r) platform key h = (None, h1)" "length h1 = length h"
    and c: "case merged_entry platform t of
              Some t' \<Rightarrow> h1 ! r = (kr, D @ T) \<and> reads_in mid mid' h1 (snd p) t' \<and>
                         (\<forall>a. \<not> (mid \<le> a \<and> a < mid') \<longrightarrow> h1 ! a = h ! a)
            | None \<Rightarrow> h1 = h[r := (kr, AList.delete key (D @ T))]"
    by blast
  have r1: "r < length h1" using v(2) Cons.prems(1) by simp
  have nulls: "\<forall>q\<in>set Tt. snd q \<noteq> JNull" using Cons.prems(6) by simp
  have lm: "lo \<le> mid" using segs_props_in[OF Cons.prems(4)] by simp
  show ?case
  proof (cases "merged_entry platform t")
    case None
    then have h1: "h1 = h[r := (kr, D @ T1)]"
      using c delete_head_of_rest[of D p T1] Cons.prems(3) p(1,2) by simp
    have ag: "agree lo r h h1" by (simp add: agree_def h1)
    have s1: "segs lo mid' h1 D Dt"
      using segs_widen[OF segs_frame[OF Cons.prems(4)], of h1 lo mid'] ag p(3) mr lm
      by (auto simp: agree_def)
    have s2: "segs mid' r h1 T1 Tt"
      using segs_frame[OF p(5), of h1] ag lm p(3) by (auto simp: agree_def)
    have d: "distinct (map fst (D @ T1))" using Cons.prems(3) p(1) by simp
    have c1: "h1 ! r = (kr, D @ T1)" using Cons.prems(1) by (simp add: h1)
    from Cons.IH[OF r1 c1 d s1 s2 nulls] obtain h' T' where
      "for_in (VRef r) platform (map fst T1) h1 = (None, h')" "length h' = length h1"
      "h' ! r = (kr, D @ T')" "distinct (map fst (D @ T'))"
      "segs lo r h' (D @ T')
         (Dt @ List.map_filter (\<lambda>(key, e). map_option (Pair key) (merged_entry platform e)) Tt)"
      by blast
    then show ?thesis using v p(1,2) q None by (auto simp: List.map_filter_simps)
  next
    case (Some t')
    then have c': "h1 ! r = (kr, D @ T)" "reads_in mid mid' h1 (snd p) t'"
      "\<forall>a. \<not> (mid \<le> a \<and> a < mid') \<longrightarrow> h1 ! a = h ! a"
      using c by simp_all
    have "agree lo mid h h1" "agree mid' r h h1"
      using c'(3) v(2) by (auto simp: agree_def)
    then have "segs lo mid h1 D Dt" "segs mid' r h1 T1 Tt"
      using segs_frame[OF Cons.prems(4)] segs_frame[OF p(5)] by auto
    then have s1: "segs lo mid' h1 (D @ [p]) (Dt @ [(key, t')])" and s2: "segs mid' r h1 T1 Tt"
      using segs_append[of lo mid h1 D Dt mid' "snd p" t' key] c'(2) p(2,3) by (cases p, auto)
    have c1: "h1 ! r = (kr, (D @ [p]) @ T1)" using c'(1) p(1) by simp
    have d: "distinct (map fst ((D @ [p]) @ T1))" using Cons.prems(3) p(1) by simp
    from Cons.IH[OF r1 c1 d s1 s2 nulls] obtain h' T' where
      "for_in (VRef r) platform (map fst T1) h1 = (None, h')" "length h' = length h1"
      "h' ! r = (kr, (D @ [p]) @ T')" "distinct (map fst ((D @ [p]) @ T'))"
      "segs lo r h' ((D @ [p]) @ T')
         ((Dt @ [(key, t')]) @ List.map_filter (\<lambda>(key, e). map_option (Pair key) (merged_entry platform e)) Tt)"
      by blast
    then show ?thesis using v p(1,2) q Some
      by (auto simp: List.map_filter_simps intro!: exI[of _ "p # T'"])
  qed
qed

section \<open>The entries of the result\<close>

lemma last_show_nat: "last (show_nat n) = char_of (48 + n mod 10)"
  by (subst show_nat.simps) simp

lemma digit_code: "d < 10 \<Longrightarrow> of_char (char_of (48 + d :: nat)) = (48 + d :: nat)"
  by simp

lemma show_nat_not_platform: "show_nat n \<noteq> ''platform''"
proof
  assume "show_nat n = ''platform''"
  then have "last (show_nat n) = CHR ''m''" by simp
  then have "char_of (48 + n mod 10) = CHR ''m''" by (simp add: last_show_nat)
  then have "of_char (char_of (48 + n mod 10)) = (of_char (CHR ''m'') :: nat)" by simp
  moreover have "n mod 10 < 10" by simp
  ultimately have "48 + n mod 10 = (109::nat)" using digit_code[of "n mod 10"] by simp
  then have "n mod 10 = 61" by linarith
  moreover have "n mod 10 < 10" by simp
  ultimately show False by linarith
qed

lemma show_nat_nonempty: "show_nat n \<noteq> []"
  by (subst show_nat.simps) simp

lemma digit_char_inj: "a < 10 \<Longrightarrow> b < 10 \<Longrightarrow> char_of (48 + a) = char_of (48 + b) \<Longrightarrow> a = (b::nat)"
proof -
  assume a: "a < 10" "b < 10" and e: "char_of (48 + a) = char_of (48 + b)"
  from e have "of_char (char_of (48 + a)) = (of_char (char_of (48 + b)) :: nat)" by simp
  then have "48 + a = 48 + b" using digit_code[OF a(1)] digit_code[OF a(2)] by simp
  then show "a = b" by simp
qed

lemma show_nat_inj: "show_nat n = show_nat m \<Longrightarrow> n = m"
proof (induction n arbitrary: m rule: show_nat.induct)
  case (1 n)
  have l: "char_of (48 + n mod 10) = char_of (48 + m mod 10)"
    using "1.prems" last_show_nat[of n] last_show_nat[of m] by simp
  then have md: "n mod 10 = m mod 10" using digit_char_inj[of "n mod 10" "m mod 10"] by simp
  show ?case
  proof (cases "n < 10")
    case True
    then have "show_nat n = [char_of (48 + n)]" by (subst show_nat.simps) simp
    then have "length (show_nat m) = 1" using "1.prems" by simp
    moreover have "length (show_nat m) = length (show_nat (m div 10)) + 1" if "\<not> m < 10"
      using that by (subst show_nat.simps) simp
    ultimately have "m < 10" using show_nat_nonempty[of "m div 10"] by (cases "m < 10") auto
    then show ?thesis using True md by simp
  next
    case False
    then have n: "show_nat n = show_nat (n div 10) @ [char_of (48 + n mod 10)]"
      by (subst show_nat.simps) simp
    have "\<not> m < 10"
    proof
      assume "m < 10"
      then have "show_nat m = [char_of (48 + m)]" by (subst show_nat.simps) simp
      then show False using "1.prems" n show_nat_nonempty[of "n div 10"] by simp
    qed
    then have m: "show_nat m = show_nat (m div 10) @ [char_of (48 + m mod 10)]"
      by (subst show_nat.simps) simp
    have "show_nat (n div 10) = show_nat (m div 10)" using "1.prems" n m by simp
    from "1.IH"[OF False this] have "n div 10 = m div 10" .
    then have "n div 10 * 10 + n mod 10 = m div 10 * 10 + m mod 10" using md by simp
    then show ?thesis by simp
  qed
qed

lemma index_props_keys: "map fst (index_props mk s) = map show_nat [0..<length s]"
  by (simp add: index_props_def comp_def)

lemma distinct_index_props: "distinct (map fst (index_props mk s))"
  unfolding index_props_keys by (simp add: distinct_map inj_on_def show_nat_inj)

lemma string_has_no_platform: "map_of (index_props mk s) ''platform'' = None"
proof -
  have "''platform'' \<notin> set (map fst (index_props mk s))"
    unfolding index_props_keys using show_nat_not_platform[symmetric] by auto
  then show ?thesis by (simp add: map_of_eq_None_iff)
qed

lemma distinct_props_json: "distinct (map fst (props_json j))"
  by (cases j) (simp_all add: props_json_def distinct_index_props)

lemma table_only_in_nodes:
  "truthy_json (platform_table e) \<Longrightarrow> \<exists>k ps. e = JNode k ps"
  by (cases e) (auto simp: platform_table_def props_json_def truthy_json_def string_has_no_platform)

lemma map_of_assign:
  "distinct (map fst ops) \<Longrightarrow>
     map_of (foldl (\<lambda>ps (k, v). AList.update k v ps) ps ops) f =
       (case map_of ops f of Some x \<Rightarrow> Some x | None \<Rightarrow> map_of ps f)"
proof (induction ops arbitrary: ps)
  case Nil
  then show ?case by simp
next
  case (Cons p ops)
  obtain k v where p: "p = (k, v)" by (cases p)
  have n: "map_of ops k = None" using Cons.prems p by (simp add: map_of_eq_None_iff)
  show ?case using Cons.IH[of "AList.update k v ps"] Cons.prems p n
    by (auto simp: update_conv' split: option.splits)
qed

lemma merged_entry_rule:
  "(\<not> truthy_json (platform_table e) \<longrightarrow> merged_entry platform e = Some e) \<and>
   (truthy_json (platform_table e) \<and> \<not> truthy_json (overrides_for platform e) \<longrightarrow>
      merged_entry platform e = None) \<and>
   (truthy_json (platform_table e) \<and> truthy_json (overrides_for platform e) \<longrightarrow>
      (\<exists>e' ov. merged_entry platform e = Some e' \<and> overrides_for platform e = Some ov \<and>
         map_of (props_json e') ''platform'' = None \<and>
         (\<forall>f. f \<noteq> ''platform'' \<longrightarrow>
              map_of (props_json e') f =
                (case map_of (props_json ov) f of Some x \<Rightarrow> Some x | None \<Rightarrow> map_of (props_json e) f))))"
proof (intro conjI impI)
  assume "\<not> truthy_json (platform_table e)"
  then show "merged_entry platform e = Some e"
    by (simp add: merged_entry_def platform_table_def)
next
  assume "truthy_json (platform_table e) \<and> \<not> truthy_json (overrides_for platform e)"
  then show "merged_entry platform e = None"
    by (simp add: merged_entry_def platform_table_def overrides_for_def)
next
  assume a: "truthy_json (platform_table e) \<and> truthy_json (overrides_for platform e)"
  then obtain k ps where e: "e = JNode k ps" using table_only_in_nodes by blast
  from a obtain ov where ov: "overrides_for platform e = Some ov"
    by (cases "overrides_for platform e") (auto simp: truthy_json_def)
  define ps' where "ps' = AList.delete ''platform''
                            (foldl (\<lambda>ps (key, v). AList.update key v ps) ps (props_json ov))"
  have m: "merged_entry platform e = Some (JNode k ps')"
    using a ov e by (simp add: merged_entry_def platform_table_def overrides_for_def ps'_def)
  note d = distinct_props_json[of ov]
  have pj: "props_json (JNode k ps') = AList.clearjunk ps'" "props_json e = AList.clearjunk ps"
    using e by (simp_all add: props_json_def)
  have 1: "map_of (props_json (JNode k ps')) ''platform'' = None"
    unfolding pj by (simp add: map_of_clearjunk ps'_def delete_conv')
  have 2: "map_of (props_json (JNode k ps')) f =
             (case map_of (props_json ov) f of Some x \<Rightarrow> Some x | None \<Rightarrow> map_of (props_json e) f)"
    if "f \<noteq> ''platform''" for f
    unfolding pj using that
    by (simp add: map_of_clearjunk ps'_def delete_conv' map_of_assign[OF d] split: option.splits)
  show "\<exists>e' ov. merged_entry platform e = Some e' \<and> overrides_for platform e = Some ov \<and>
         map_of (props_json e') ''platform'' = None \<and>
         (\<forall>f. f \<noteq> ''platform'' \<longrightarrow>
              map_of (props_json e') f =
                (case map_of (props_json ov) f of Some x \<Rightarrow> Some x | None \<Rightarrow> map_of (props_json e) f))"
    using m ov 1 2 by blast
qed

lemma stringify_node:
  "stringify n h v = Some (JNode k js) \<Longrightarrow> \<exists>a. v = VRef a \<and> a < length h"
  by (cases n; cases v) (auto split: if_splits)

lemma loadMetadata_result:
  assumes "json_stringify h requirements = Some (JNode k js)" "\<forall>q\<in>set js. snd q \<noteq> JNull"
  shows "\<exists>a h'. loadMetadata h requirements platform = (Inr (VRef a), h') \<and>
           reads_in (length h) (length h') h' (VRef a) (loadMetadata_spec platform (JNode k js)) \<and>
           json_stringify h' (VRef a) = Some (loadMetadata_spec platform (JNode k js)) \<and>
           json_stringify h' requirements = Some (JNode k js)"
proof -
  have st: "stringify (length h) h requirements = Some (JNode k js)"
    using assms(1) by (simp add: json_stringify_def)
  obtain a where a: "requirements = VRef a" "a < length h" using stringify_node[OF st] by blast
  have wf: "wf_props js" and keys0: "map fst (props_json (JNode k js)) = map fst (own_props h requirements)"
    using stringify_wf[OF st] by simp_all
  have dj: "distinct (map fst js)" using wf by (simp add: wf_props_iff)
  have keys: "map fst (own_props h requirements) = map fst js"
    using keys0 dj by (simp add: props_json_def)
  obtain ps h0 where p: "parse_props js h = (ps, h0)" by (cases "parse_props js h")
  from json_parse_reads(2)[OF p wf] obtain cs where
    s0: "segs (length h) (length h0) h0 ps js" and cs: "h0 = h @ cs" by blast
  define r where "r = length h0"
  define h1 where "h1 = h0 @ [(k, ps)]"
  have jp: "json_parse (JNode k js) h = (VRef r, h1)" using p by (simp add: r_def h1_def)
  have s1: "segs (length h) r h1 ps js"
    using segs_frame[OF s0, of h1] agree_append[of "length h0" h0] by (simp add: h1_def r_def)
  have kp: "map fst ps = map fst js" using segs_props_in[OF s0] by simp
  have dp: "distinct (map fst ([] @ ps))" using kp dj by simp
  have r1: "r < length h1" "h1 ! r = (k, [] @ ps)" by (simp_all add: h1_def r_def)
  have le: "length h \<le> r" using cs by (simp add: r_def)
  have op: "own_props h1 requirements = own_props h requirements"
    using a cs by (simp add: own_props_def h1_def nth_append)
  have e0: "segs (length h) (length h) h1 [] []" by simp
  from for_in_entries[OF r1 dp e0 s1 assms(2), of platform] obtain h2 T' where
    f: "for_in (VRef r) platform (map fst ps) h1 = (None, h2)" "length h2 = length h1"
       "h2 ! r = (k, T')" "distinct (map fst T')"
       "segs (length h) r h2 T'
          (List.map_filter (\<lambda>(key, e). map_option (Pair key) (merged_entry platform e)) js)"
    by auto
  have lm: "loadMetadata h requirements platform = (Inr (VRef r), h2)"
    using assms(1) jp f(1) op keys kp by (simp add: loadMetadata_def)
  have sp: "loadMetadata_spec platform (JNode k js) =
              JNode k (List.map_filter (\<lambda>(key, e). map_option (Pair key) (merged_entry platform e)) js)"
    by (simp add: loadMetadata_spec_def)
  have rd: "reads_in (length h) (length h2) h2 (VRef r) (loadMetadata_spec platform (JNode k js))"
    using segs_props_in[OF f(5)] f(2,3,4) le r1(1) by (simp add: sp)
  have s2: "json_stringify h2 (VRef r) = Some (loadMetadata_spec platform (JNode k js))"
    using reads_in_stringify(1)[OF rd] by (simp add: json_stringify_def)
  have "take (length h) h2 = h" using loadMetadata_input_untouched[OF lm] .
  then have "h2 = h @ drop (length h) h2" by (metis append_take_drop_id)
  moreover have "length h \<le> length h2" using f(2) cs by (simp add: h1_def)
  ultimately have "stringify (length h2) h2 requirements = Some (JNode k js)"
    using stringify_mono[OF st, of "length h2" "drop (length h) h2"] by simp
  then have s3: "json_stringify h2 requirements = Some (JNode k js)"
    by (simp add: json_stringify_def)
  show ?thesis using lm rd s2 s3 by blast
qed

lemma map_of_map_filter_entries:
  "distinct (map fst js) \<Longrightarrow> (key, e) \<in> set js \<Longrightarrow>
     map_of (List.map_filter (\<lambda>(key, e). map_option (Pair key) (f e)) js) key = f e"
proof (induction js)
  case Nil
  then show ?case by simp
next
  case (Cons q js)
  obtain k' e' where q: "q = (k', e')" by (cases q)
  have keys: "fst ` set (List.map_filter (\<lambda>(key, e). map_option (Pair key) (f e)) js) \<subseteq> fst ` set js"
    by (force simp: List.map_filter_def)
  show ?case
  proof (cases "(key, e) = q")
    case True
    then have "key \<notin> fst ` set js" using Cons.prems(1) by force
    then have "key \<notin> fst ` set (List.map_filter (\<lambda>(key, e). map_option (Pair key) (f e)) js)"
      using keys by blast
    then have "map_of (List.map_filter (\<lambda>(key, e). map_option (Pair key) (f e)) js) key = None"
      by (simp add: map_of_eq_None_iff)
    then show ?thesis using True q by (cases "f e") (simp_all add: List.map_filter_simps)
  next
    case False
    then have in_js: "(key, e) \<in> set js" using Cons.prems(2) by simp
    then have "key \<in> fst ` set js" by force
    then have "key \<noteq> k'" using Cons.prems(1) q by auto
    moreover have "distinct (map fst js)" using Cons.prems(1) by simp
    ultimately show ?thesis using Cons.IH[OF _ in_js] q
      by (cases "f e'") (simp_all add: List.map_filter_simps)
  qed
qed

text \<open>
  C9. \<open>loadMetadata\<close> never changes a cell of the heap it was called on, whatever the
  input and also when it throws. For a non-circular requirements object with no \<open>null\<close>
  entry it returns a new object, every cell of which the call allocated: a deep copy in
  which each entry with a platform table and overrides for the platform has the overrides
  merged in and the \<open>platform\<close> key removed, each entry with a platform table and no
  overrides for the platform is absent, and every other entry is as in the input; the
  input still reads as before.
\<close>

theorem loadMetadata_deep_copy:
  "(\<forall>r h'. loadMetadata h requirements platform = (r, h') \<longrightarrow> take (length h) h' = h) \<and>
   (json_stringify h requirements = Some (JNode k js) \<and> (\<forall>q\<in>set js. snd q \<noteq> JNull) \<longrightarrow>
      (\<exists>a h'. loadMetadata h requirements platform = (Inr (VRef a), h') \<and>
              reads_in (length h) (length h') h' (VRef a) (loadMetadata_spec platform (JNode k js)) \<and>
              json_stringify h' (VRef a) = Some (loadMetadata_spec platform (JNode k js)) \<and>
              json_stringify h' requirements = Some (JNode k js))) \<and>
   (json_stringify h requirements = Some (JNode k js) \<longrightarrow>
      (\<forall>key e. (key, e) \<in> set js \<longrightarrow>
         (\<not> truthy_json (platform_table e) \<longrightarrow>
            map_of (props_json (loadMetadata_spec platform (JNode k js))) key = Some e) \<and>
         (truthy_json (platform_table e) \<and> \<not> truthy_json (overrides_for platform e) \<longrightarrow>
            map_of (props_json (loadMetadata_spec platform (JNode k js))) key = None) \<and>
         (truthy_json (platform_table e) \<and> truthy_json (overrides_for platform e) \<longrightarrow>
            (\<exists>e' ov. map_of (props_json (loadMetadata_spec platform (JNode k js))) key = Some e' \<and>
               overrides_for platform e = Some ov \<and>
               map_of (props_json e') ''platform'' = None \<and>
               (\<forall>f. f \<noteq> ''platform'' \<longrightarrow>
                    map_of (props_json e') f =
                      (case map_of (props_json ov) f of
                         Some x \<Rightarrow> Some x | None \<Rightarrow> map_of (props_json e) f))))))"
proof (intro conjI)
  show "\<forall>r h'. loadMetadata h requirements platform = (r, h') \<longrightarrow> take (length h) h' = h"
    using loadMetadata_input_untouched by blast
  show "json_stringify h requirements = Some (JNode k js) \<and> (\<forall>q\<in>set js. snd q \<noteq> JNull) \<longrightarrow>
      (\<exists>a h'. loadMetadata h requirements platform = (Inr (VRef a), h') \<and>
              reads_in (length h) (length h') h' (VRef a) (loadMetadata_spec platform (JNode k js)) \<and>
              json_stringify h' (VRef a) = Some (loadMetadata_spec platform (JNode k js)) \<and>
              json_stringify h' requirements = Some (JNode k js))"
    using loadMetadata_result by blast
  show "json_stringify h requirements = Some (JNode k js) \<longrightarrow>
      (\<forall>key e. (key, e) \<in> set js \<longrightarrow>
         (\<not> truthy_json (platform_table e) \<longrightarrow>
            map_of (props_json (loadMetadata_spec platform (JNode k js))) key = Some e) \<and>
         (truthy_json (platform_table e) \<and> \<not> truthy_json (overrides_for platform e) \<longrightarrow>
            map_of (props_json (loadMetadata_spec platform (JNode k js))) key = None) \<and>
         (truthy_json (platform_table e) \<and> truthy_json (overrides_for platform e) \<longrightarrow>
            (\<exists>e' ov. map_of (props_json (loadMetadata_spec platform (JNode k js))) key = Some e' \<and>
               overrides_for platform e = Some ov \<and>
               map_of (props_json e') ''platform'' = None \<and>
               (\<forall>f. f \<noteq> ''platform'' \<longrightarrow>
                    map_of (props_json e') f =
                      (case map_of (props_json ov) f of
                         Some x \<Rightarrow> Some x | None \<Rightarrow> map_of (props_json e) f)))))"
  proof (intro impI allI)
    fix key e
    assume st: "json_stringify h requirements = Some (JNode k js)" and m: "(key, e) \<in> set js"
    have "wf_props js" using stringify_wf[of "length h" h requirements] st
      by (simp add: json_stringify_def)
    then have dj: "distinct (map fst js)" by (simp add: wf_props_iff)
    have "map_of (props_json (loadMetadata_spec platform (JNode k js))) key = merged_entry platform e"
      using map_of_map_filter_entries[OF dj m, of "merged_entry platform"]
      by (simp add: loadMetadata_spec_def props_json_def map_of_clearjunk)
    then show "(\<not> truthy_json (platform_table e) \<longrightarrow>
            map_of (props_json (loadMetadata_spec platform (JNode k js))) key = Some e) \<and>
         (truthy_json (platform_table e) \<and> \<not> truthy_json (overrides_for platform e) \<longrightarrow>
            map_of (props_json (loadMetadata_spec platform (JNode k js))) key = None) \<and>
         (truthy_json (platform_table e) \<and> truthy_json (overrides_for platform e) \<longrightarrow>
            (\<exists>e' ov. map_of (props_json (loadMetadata_spec platform (JNode k js))) key = Some e' \<and>
               overrides_for platform e = Some ov \<and>
               map_of (props_json e') ''platform'' = None \<and>
               (\<forall>f. f \<noteq> ''platform'' \<longrightarrow>
                    map_of (props_json e') f =
                      (case map_of (props_json ov) f of
                         Some x \<Rightarrow> Some x | None \<Rightarrow> map_of (props_json e) f))))"
      using merged_entry_rule[of e platform] by simp
  qed
qed

lemma config_heap_holds_config: "json_stringify config_heap config_root = Some (JNode Object config_entries)"
  by (simp add: json_stringify_def config_heap_def config_root_def config_json_def config_entries_def
        eval_nat_numeral)

lemma config_entries_not_null: "\<forall>q\<in>set config_entries. snd q \<noteq> JNull"
  by (simp add: config_entries_def)

lemma config_spec_linux: "loadMetadata_spec ''linux'' (JNode Object config_entries) = config_linux"
  by (simp add: loadMetadata_spec_def config_entries_def config_linux_def merged_entry_def
        props_json_def truthy_json_def List.map_filter_def Let_def)

theorem loadMetadata_deep_copy_witness:
  "json_stringify config_heap config_root = Some (JNode Object config_entries) \<and>
   (\<exists>a h'. loadMetadata config_heap config_root ''linux'' = (Inr (VRef a), h') \<and>
           take (length config_heap) h' = config_heap \<and>
           json_stringify h' (VRef a) = Some config_linux \<and>
           json_stringify h' config_root = Some (JNode Object config_entries))"
proof -
  note T = loadMetadata_deep_copy[of config_heap config_root "''linux''" Object config_entries]
  from T config_heap_holds_config config_entries_not_null obtain a h' where
    r: "loadMetadata config_heap config_root ''linux'' = (Inr (VRef a), h')"
       "json_stringify h' (VRef a) = Some (loadMetadata_spec ''linux'' (JNode Object config_entries))"
       "json_stringify h' config_root = Some (JNode Object config_entries)"
    by blast
  from T r(1) have "take (length config_heap) h' = config_heap" by blast
  with r config_heap_holds_config config_spec_linux show ?thesis by auto
qed

end
